theory Spec2Isabelle
  imports Complex_Main "HOL-Library.Word"
begin

section \<open>Data model of the sampler (Sampler.cpp)\<close>

text \<open>
  Machine integers are words of their width. A value of type \<^verbatim>\<open>float\<close> is the real
  number it stands for (infinities and NaN are not modelled). An arithmetic operation or
  a conversion to \<^verbatim>\<open>float\<close> in the envelope, the kernel and the mixing pass gives the
  exact result rounded to binary32: the rounding \<open>rnd\<close> is a parameter of these functions,
  and a literal such as \<^verbatim>\<open>0.001f\<close> is \<open>rnd 0.001\<close>. Comparisons and assignments are
  exact. The pitch of a voice (\<^verbatim>\<open>powf\<close>, not a correctly rounded operation) and the bend
  \<^verbatim>\<open>b * 12.0f / 8192.0f\<close> are kept as exact real numbers. Pointers into an array are an
  offset into a list; a read or a write outside the list, a null dereference and a
  float-to-integer conversion out of range are the error values of \<open>error\<close>.
\<close>

type_synonym u8 = "8 word"
type_synonym i16 = "16 word"
type_synonym u32 = "32 word"

datatype error = NullPointer | OutOfBounds | FloatToIntRange | NonTermination

datatype SampleAdsr = Attack | Decay | Sustain | Release

record Sample =
  sample_pcm :: "i16 list"
  length_smp :: u32
  root :: u8
  loopStart :: u32
  loopEnd :: u32
  adsrEnabled :: bool
  attack :: real
  decay :: real
  sustain :: real
  release :: real

record MappedSample =
  sample_ms :: Sample
  lowerNoteNo :: u8
  upperNoteNo :: u8
  lowerVelocity :: u8
  upperVelocity :: u8

record Timbre =
  samples :: "MappedSample list"

record SamplePlayer =
  sample :: "Sample option"
  noteNo :: u8
  volume :: real
  pitchBend :: real
  channel :: u8
  createdAt :: nat
  pos :: u32
  pos_f :: real
  playing :: bool
  released :: bool
  gain :: real
  pitch :: real
  adsrState :: SampleAdsr

record PlayingNote =
  noteNo_pn :: u8
  playerId :: nat

record Channel =
  timbre :: "Timbre option"
  pitchBend_ch :: real
  playingNotes :: "PlayingNote list"

section \<open>Timbre::GetAppropriateSample (lines 42-50)\<close>

fun GetAppropriateSample_list :: "MappedSample list \<Rightarrow> u8 \<Rightarrow> u8 \<Rightarrow> Sample option" where
  "GetAppropriateSample_list [] n v = None"
| "GetAppropriateSample_list (ms # rest) n v =
     (if lowerNoteNo ms \<le> n \<and> n \<le> upperNoteNo ms \<and> lowerVelocity ms \<le> v \<and> v \<le> upperVelocity ms
      then Some (sample_ms ms)
      else GetAppropriateSample_list rest n v)"

definition GetAppropriateSample :: "Timbre \<Rightarrow> u8 \<Rightarrow> u8 \<Rightarrow> Sample option" where
  "GetAppropriateSample t n v = GetAppropriateSample_list (samples t) n v"

section \<open>SamplePlayer::UpdatePitch and SamplePlayer::UpdateGain (lines 170-223)\<close>

definition UpdatePitch :: "SamplePlayer \<Rightarrow> SamplePlayer" where
  "UpdatePitch p =
     (case sample p of
        None \<Rightarrow> p
      | Some s \<Rightarrow>
          (let delta = real_of_int (uint (noteNo p) - uint (root s)) + pitchBend p
           in p\<lparr>pitch := 2 powr (delta / 12)\<rparr>))"

definition UpdateGain :: "(real \<Rightarrow> real) \<Rightarrow> SamplePlayer \<Rightarrow> SamplePlayer" where
  "UpdateGain rnd p =
     (case sample p of
        None \<Rightarrow> p
      | Some s \<Rightarrow>
          if \<not> adsrEnabled s then p\<lparr>gain := volume p\<rparr>
          else
            (let p1 = (if released p then p\<lparr>adsrState := Release\<rparr> else p)
             in case adsrState p1 of
                  Attack \<Rightarrow>
                    (let p2 = p1\<lparr>gain := rnd (gain p1 + rnd (attack s * volume p1))\<rparr>
                     in if gain p2 \<ge> volume p2
                        then p2\<lparr>gain := volume p2, adsrState := Decay\<rparr>
                        else p2)
                | Decay \<Rightarrow>
                    (let goal = rnd (sustain s * volume p1);
                         p2 = p1\<lparr>gain := rnd (rnd (rnd (gain p1 - goal) * decay s) + goal)\<rparr>
                     in if rnd (gain p2 - goal) < rnd 0.001
                        then p2\<lparr>adsrState := Sustain, gain := goal\<rparr>
                        else p2)
                | Sustain \<Rightarrow> p1
                | Release \<Rightarrow>
                    (let p2 = p1\<lparr>gain := rnd (gain p1 * release s)\<rparr>
                     in if gain p2 < rnd 0.001
                        then p2\<lparr>gain := 0, playing := False\<rparr>
                        else p2)))"

section \<open>The SamplePlayer constructor\<close>

text \<open>
  Modelled from the spec: the constructor \<^verbatim>\<open>Sampler::SamplePlayer(sample, noteNo, volume,
  pitchBend, channel)\<close> is declared in Sampler.h, which is not among the sources.
  Section 4.B of the spec: on allocation the voice is reset with \<open>gain = 0\<close>,
  \<open>adsrState = attack\<close>, \<open>released = false\<close>, \<open>playing = true\<close>, \<open>pos = 0\<close>,
  \<open>pos_f = 0\<close> and \<open>createdAt\<close> the tick of the allocation; with \<open>adsrEnabled = false\<close>
  the gain is the volume permanently. Section 4.E: with no matching sample the voice is
  reset to an idle state, \<open>playing = false\<close>. Section 3: \<open>pitch\<close> is
  \<open>2^((noteNo - root + pitchBend) / 12)\<close>, which is what \<open>UpdatePitch\<close> computes.
  The functions of Sampler.cpp below take the constructor as a parameter \<open>new\<close>; this
  definition is used only where a statement is about the constructed voice itself.
\<close>

definition SamplePlayer_new ::
  "nat \<Rightarrow> Sample option \<Rightarrow> u8 \<Rightarrow> real \<Rightarrow> real \<Rightarrow> u8 \<Rightarrow> SamplePlayer" where
  "SamplePlayer_new tick smp n vol bend ch =
     UpdatePitch
       \<lparr>sample = smp, noteNo = n, volume = vol, pitchBend = bend, channel = ch,
        createdAt = tick, pos = 0, pos_f = 0,
        playing = (case smp of None \<Rightarrow> False | Some s \<Rightarrow> True),
        released = False,
        gain = (case smp of None \<Rightarrow> 0 | Some s \<Rightarrow> if adsrEnabled s then 0 else vol),
        pitch = 1, adsrState = Attack\<rparr>"

section \<open>Channel methods (lines 87-168)\<close>

text \<open>
  A channel reaches the voice pool through a weak reference. \<open>lock\<close> is the result of
  \<^verbatim>\<open>sampler.lock()\<close>: \<open>None\<close> when the sampler has been freed, otherwise the pool
  \<^verbatim>\<open>players[MAX_SOUND]\<close> as a list (so \<open>MAX_SOUND\<close> is the length of the list).
  \<open>idx\<close> is \<^verbatim>\<open>std::distance(&channels[0], this)\<close>, the channel's own index.
  \<open>velocityTable\<close> (Tables.h) and the constructor \<open>new\<close> (Sampler.h) are parameters.
\<close>

text \<open>The scan of lines 91-114: the index the loop stops at, or the oldest voice.\<close>

function find_player :: "SamplePlayer list \<Rightarrow> nat \<Rightarrow> nat \<Rightarrow> nat" where
  "find_player players i oldestPlayerId =
     (if i < length players
      then (if playing (players ! i) = False then i
            else find_player players (Suc i)
                   (if createdAt (players ! i) < createdAt (players ! oldestPlayerId)
                    then i else oldestPlayerId))
      else oldestPlayerId)"
  by pat_completeness auto
termination
  by (relation "measure (\<lambda>(players, i, oldestPlayerId). length players - i)") auto

declare find_player.simps [simp del]

definition Channel_NoteOn ::
  "(Sample option \<Rightarrow> u8 \<Rightarrow> real \<Rightarrow> real \<Rightarrow> u8 \<Rightarrow> SamplePlayer) \<Rightarrow> real list \<Rightarrow> u8 \<Rightarrow>
   u8 \<Rightarrow> u8 \<Rightarrow> Channel \<times> SamplePlayer list option \<Rightarrow>
   error + (Channel \<times> SamplePlayer list option)" where
  "Channel_NoteOn new velocityTable idx n v st =
     (case st of (c, lock) \<Rightarrow>
        (case lock of
           None \<Rightarrow> Inr (c, None)
         | Some players \<Rightarrow>
             (let k = find_player players 0 0
              in case timbre c of
                   None \<Rightarrow> Inl NullPointer
                 | Some t \<Rightarrow>
                     if \<not> unat v < length velocityTable then Inl OutOfBounds
                     else if \<not> k < length players then Inl OutOfBounds
                     else Inr (c\<lparr>playingNotes := playingNotes c @ [\<lparr>noteNo_pn = n, playerId = k\<rparr>]\<rparr>,
                               Some (players[k := new (GetAppropriateSample t n v) n
                                                     (velocityTable ! unat v) (pitchBend_ch c) idx])))))"

text \<open>The loop of lines 131-144 over \<open>playingNotes\<close>: the entries kept, and the pool.\<close>

fun NoteOff_loop ::
  "u8 \<Rightarrow> u8 \<Rightarrow> PlayingNote list \<Rightarrow> SamplePlayer list \<Rightarrow> error + (PlayingNote list \<times> SamplePlayer list)" where
  "NoteOff_loop idx n [] players = Inr ([], players)"
| "NoteOff_loop idx n (e # es) players =
     (if noteNo_pn e = n
      then (if \<not> playerId e < length players then Inl OutOfBounds
            else (let player = players ! playerId e
                  in NoteOff_loop idx n es
                       (if noteNo player = n \<and> channel player = idx
                        then players[playerId e := player\<lparr>released := True\<rparr>]
                        else players)))
      else (case NoteOff_loop idx n es players of
              Inl err \<Rightarrow> Inl err
            | Inr (kept, players') \<Rightarrow> Inr (e # kept, players')))"

definition Channel_NoteOff ::
  "u8 \<Rightarrow> u8 \<Rightarrow> u8 \<Rightarrow> Channel \<times> SamplePlayer list option \<Rightarrow>
   error + (Channel \<times> SamplePlayer list option)" where
  "Channel_NoteOff idx n v st =
     (case st of (c, lock) \<Rightarrow>
        (case lock of
           None \<Rightarrow> Inr (c, None)
         | Some players \<Rightarrow>
             (case NoteOff_loop idx n (playingNotes c) players of
                Inl err \<Rightarrow> Inl err
              | Inr (kept, players') \<Rightarrow> Inr (c\<lparr>playingNotes := kept\<rparr>, Some players'))))"

text \<open>The loop of lines 157-166.\<close>

fun PitchBend_loop ::
  "u8 \<Rightarrow> real \<Rightarrow> PlayingNote list \<Rightarrow> SamplePlayer list \<Rightarrow> error + SamplePlayer list" where
  "PitchBend_loop idx bend [] players = Inr players"
| "PitchBend_loop idx bend (e # es) players =
     (if \<not> playerId e < length players then Inl OutOfBounds
      else (let player = players ! playerId e
            in PitchBend_loop idx bend es
                 (if channel player = idx
                  then players[playerId e := UpdatePitch (player\<lparr>pitchBend := bend\<rparr>)]
                  else players)))"

definition Channel_PitchBend ::
  "u8 \<Rightarrow> i16 \<Rightarrow> Channel \<times> SamplePlayer list option \<Rightarrow>
   error + (Channel \<times> SamplePlayer list option)" where
  "Channel_PitchBend idx b st =
     (case st of (c, lock) \<Rightarrow>
        (let c1 = c\<lparr>pitchBend_ch := real_of_int (sint b) * 12 / 8192\<rparr>
         in case lock of
              None \<Rightarrow> Inr (c1, None)
            | Some players \<Rightarrow>
                (case PitchBend_loop idx (pitchBend_ch c1) (playingNotes c1) players of
                   Inl err \<Rightarrow> Inl err
                 | Inr players' \<Rightarrow> Inr (c1, Some players'))))"

section \<open>The resampling kernel sampler_process_inner (lines 227-280)\<close>

text \<open>
  \<open>src\<close> is an offset into the PCM array of the sample, \<open>dst\<close> an offset into the mix
  bus. The mix bus is passed in and returned.
\<close>

record sampler_process_inner_work_t =
  src :: nat
  dst :: nat
  pos_f_w :: real
  gain_w :: real
  pitch_w :: real

text \<open>
  \<^verbatim>\<open>uint32_t intval = pos_f\<close>: the conversion truncates towards zero and is
  defined only when the truncated value fits the type.
\<close>

definition float_to_u32 :: "real \<Rightarrow> u32 option" where
  "float_to_u32 x =
     (if -1 < x \<and> x < 2 ^ 32
      then Some (word_of_int (if 0 \<le> x then \<lfloor>x\<rfloor> else \<lceil>x\<rceil>))
      else None)"

text \<open>
  One pass through the body of the do-while loop (lines 258-273). The conversions of
  \<open>s0\<close>, \<open>s1 - s0\<close> and \<open>intval\<close> to \<^verbatim>\<open>float\<close>, the product, the sums and the
  difference each round.
\<close>

definition kernel_body ::
  "(real \<Rightarrow> real) \<Rightarrow> i16 list \<Rightarrow> real \<Rightarrow> real \<Rightarrow> real list \<times> nat \<times> nat \<times> real \<Rightarrow>
   error + (real list \<times> nat \<times> nat \<times> real)" where
  "kernel_body rnd pcm g ptch st =
     (case st of (d_buf, s, d, posf) \<Rightarrow>
        if \<not> s + 1 < length pcm then Inl OutOfBounds
        else if \<not> d < length d_buf then Inl OutOfBounds
        else
          (let s0 = sint (pcm ! s);
               s1 = sint (pcm ! (s + 1));
               val = rnd (rnd (real_of_int s0) + rnd (rnd (real_of_int (s1 - s0)) * posf));
               d_buf' = d_buf[d := rnd (d_buf ! d + rnd (val * g))];
               posf1 = rnd (posf + ptch)
           in case float_to_u32 posf1 of
                None \<Rightarrow> Inl FloatToIntRange
              | Some intval \<Rightarrow>
                  Inr (d_buf', s + unat intval, Suc d, rnd (posf1 - rnd (real (unat intval))))))"

function kernel_loop ::
  "(real \<Rightarrow> real) \<Rightarrow> i16 list \<Rightarrow> real \<Rightarrow> real \<Rightarrow> real list \<times> nat \<times> nat \<times> real \<Rightarrow> u32 \<Rightarrow>
   error + (real list \<times> nat \<times> nat \<times> real)" where
  "kernel_loop rnd pcm g ptch st len =
     (case kernel_body rnd pcm g ptch st of
        Inl err \<Rightarrow> Inl err
      | Inr st' \<Rightarrow> if len - 1 \<noteq> 0 then kernel_loop rnd pcm g ptch st' (len - 1) else Inr st')"
  by pat_completeness auto
termination
proof (relation "measure (\<lambda>(rnd, pcm, g, ptch, st, len). unat (len - 1))", goal_cases)
  case 1
  show ?case by simp
next
  case (2 rnd pcm g ptch st len st')
  then show ?case
    using unat_minus_one [of "len - 1"] unat_gt_0 [of "len - 1"] by simp
qed

declare kernel_loop.simps [simp del]

definition sampler_process_inner ::
  "(real \<Rightarrow> real) \<Rightarrow> i16 list \<Rightarrow> real list \<Rightarrow> sampler_process_inner_work_t \<Rightarrow> u32 \<Rightarrow>
   error + (real list \<times> sampler_process_inner_work_t)" where
  "sampler_process_inner rnd pcm d_buf work len =
     (case kernel_loop rnd pcm (gain_w work) (pitch_w work)
             (d_buf, src work, dst work, pos_f_w work) len of
        Inl err \<Rightarrow> Inl err
      | Inr (d_buf', s, d, posf) \<Rightarrow> Inr (d_buf', work\<lparr>src := s, dst := d, pos_f_w := posf\<rparr>))"

text \<open>
  The kernel in the words of section 4.A of the spec, for comparison: the phase after one
  output sample (\<open>pos_f += pitch\<close>, \<open>intval = floor(pos_f)\<close>, \<open>pos_f -= intval\<close>,
  \<open>src += intval\<close>), and the interpolated value at a phase
  (\<open>val = src[0] + (src[1] - src[0]) * pos_f\<close>), in binary32.
\<close>

definition phase_advance :: "(real \<Rightarrow> real) \<Rightarrow> real \<Rightarrow> nat \<times> real \<Rightarrow> nat \<times> real" where
  "phase_advance rnd ptch ph =
     (case ph of (s, posf) \<Rightarrow>
        (let x = rnd (posf + ptch); intval = nat \<lfloor>x\<rfloor>
         in (s + intval, rnd (x - rnd (real intval)))))"

definition interpolate :: "(real \<Rightarrow> real) \<Rightarrow> i16 list \<Rightarrow> nat \<times> real \<Rightarrow> real" where
  "interpolate rnd pcm ph =
     (case ph of (s, posf) \<Rightarrow>
        rnd (rnd (real_of_int (sint (pcm ! s)))
             + rnd (rnd (real_of_int (sint (pcm ! (s + 1)) - sint (pcm ! s))) * posf)))"

text \<open>
  What the statements about the kernel use of the rounding of binary32 (round to
  nearest): it keeps 0, it is monotone, a rounded value rounds to itself, and the integer
  part and the fractional part of a binary32 value in \<open>[0, 2^32)\<close> are binary32 values
  (below \<open>2^23\<close> both are multiples of the value's unit in the last place and smaller
  than the value; from \<open>2^23\<close> on the value is an integer).
\<close>

definition binary_rounding :: "(real \<Rightarrow> real) \<Rightarrow> bool" where
  "binary_rounding rnd \<longleftrightarrow>
     rnd 0 = 0
     \<and> (\<forall>x y. x \<le> y \<longrightarrow> rnd x \<le> rnd y)
     \<and> (\<forall>x. rnd (rnd x) = rnd x)
     \<and> (\<forall>x. 0 \<le> x \<and> x < 2 ^ 32 \<and> rnd x = x \<longrightarrow>
            rnd (of_int \<lfloor>x\<rfloor>) = of_int \<lfloor>x\<rfloor> \<and> rnd (x - of_int \<lfloor>x\<rfloor>) = x - of_int \<lfloor>x\<rfloor>)"

section \<open>The mixing pass of Sampler::Process (lines 316-374)\<close>

datatype 'a loop_ctl = Break 'a | Continue 'a

text \<open>Lines 344-351: the loop end and the (wrapped) distance back to the loop start.\<close>

definition loop_point :: "Sample \<Rightarrow> u32 \<times> u32" where
  "loop_point s =
     (if adsrEnabled s then (loopEnd s, loopStart s - loopEnd s) else (length_smp s, 0))"

text \<open>
  Lines 364-367, \<^verbatim>\<open>do pos += loopBack; while (pos >= loopEnd)\<close>, on 32-bit unsigned
  values. The loop need not end (\<open>loopEnd = 0\<close>): not returning is \<open>None\<close>.
\<close>

partial_function (option) loop_back :: "u32 \<Rightarrow> u32 \<Rightarrow> u32 \<Rightarrow> u32 option" where
  "loop_back ps lBack lEnd =
     (let ps' = ps + lBack in if ps' \<ge> lEnd then loop_back ps' lBack lEnd else Some ps')"

text \<open>
  The body of the inner loop over \<open>j\<close> (lines 325-371) for one voice: \<open>mv\<close> is
  \<open>masterVolume\<close>, \<open>A\<close> is \<open>ADSR_UPDATE_SAMPLE_COUNT\<close>. Line 337 rounds twice:
  \<^verbatim>\<open>masterVolume * 65536\<close>, then the product with the gain.
\<close>

definition Process_step ::
  "(real \<Rightarrow> real) \<Rightarrow> real \<Rightarrow> nat \<Rightarrow> nat \<Rightarrow> SamplePlayer \<times> real list \<Rightarrow>
   error + (SamplePlayer \<times> real list) loop_ctl" where
  "Process_step rnd mv A j st =
     (case st of (player, d_buf) \<Rightarrow>
        (case sample player of
           None \<Rightarrow> Inr (Break (player, d_buf))
         | Some s \<Rightarrow>
             (let player1 = (if adsrEnabled s then UpdateGain rnd player else player)
              in if playing player1 = False then Inr (Break (player1, d_buf))
                 else
                   (let work = \<lparr>src = unat (pos player1), dst = j * A, pos_f_w = pos_f player1,
                               gain_w = rnd (gain player1 * rnd (mv * 65536)), pitch_w = pitch player1\<rparr>
                    in case sampler_process_inner rnd (sample_pcm s) d_buf work (word_of_nat A) of
                         Inl err \<Rightarrow> Inl err
                       | Inr (d_buf', work') \<Rightarrow>
                           (case loop_point s of (lEnd, lBack) \<Rightarrow>
                              (let ps = (word_of_nat (src work') :: u32)
                               in if ps \<ge> lEnd
                                  then (if lBack = 0
                                        then Inr (Break (player1\<lparr>playing := False\<rparr>, d_buf'))
                                        else (case loop_back ps lBack lEnd of
                                                None \<Rightarrow> Inl NonTermination
                                              | Some ps' \<Rightarrow>
                                                  Inr (Continue (player1\<lparr>pos := ps', pos_f := pos_f_w work'\<rparr>, d_buf'))))
                                  else Inr (Continue (player1\<lparr>pos := ps, pos_f := pos_f_w work'\<rparr>, d_buf'))))))))"

text \<open>The inner loop: \<open>m\<close> envelope steps from step \<open>j\<close> on, left early by a break.\<close>

fun Process_steps ::
  "(real \<Rightarrow> real) \<Rightarrow> real \<Rightarrow> nat \<Rightarrow> nat \<Rightarrow> nat \<Rightarrow> SamplePlayer \<times> real list \<Rightarrow> error + (SamplePlayer \<times> real list)" where
  "Process_steps rnd mv A j 0 st = Inr st"
| "Process_steps rnd mv A j (Suc m) st =
     (case Process_step rnd mv A j st of
        Inl err \<Rightarrow> Inl err
      | Inr (Break st') \<Rightarrow> Inr st'
      | Inr (Continue st') \<Rightarrow> Process_steps rnd mv A (Suc j) m st')"

text \<open>
  One voice of the outer loop (lines 319-372); \<open>B\<close> is
  \<open>SAMPLE_BUFFER_SIZE / ADSR_UPDATE_SAMPLE_COUNT\<close>.
\<close>

definition Process_voice ::
  "(real \<Rightarrow> real) \<Rightarrow> real \<Rightarrow> nat \<Rightarrow> nat \<Rightarrow> SamplePlayer \<times> real list \<Rightarrow> error + (SamplePlayer \<times> real list)" where
  "Process_voice rnd mv A B st =
     (case st of (player, d_buf) \<Rightarrow>
        if playing player = False then Inr (player, d_buf) else Process_steps rnd mv A 0 B (player, d_buf))"

fun Process_players ::
  "(real \<Rightarrow> real) \<Rightarrow> real \<Rightarrow> nat \<Rightarrow> nat \<Rightarrow> SamplePlayer list \<Rightarrow> real list \<Rightarrow> error + (SamplePlayer list \<times> real list)" where
  "Process_players rnd mv A B [] d_buf = Inr ([], d_buf)"
| "Process_players rnd mv A B (player # rest) d_buf =
     (case Process_voice rnd mv A B (player, d_buf) of
        Inl err \<Rightarrow> Inl err
      | Inr (player', d_buf') \<Rightarrow>
          (case Process_players rnd mv A B rest d_buf' of
             Inl err \<Rightarrow> Inl err
           | Inr (rest', d_buf'') \<Rightarrow> Inr (player' # rest', d_buf'')))"

section \<open>The sampler: message dispatch and Process (lines 285-374)\<close>

datatype MessageStatus = NOTE_ON | NOTE_OFF | PITCH_BEND

record Message =
  status :: MessageStatus
  channel_msg :: u8
  noteNo_msg :: u8
  velocity :: u8
  pitchBend_msg :: i16

record Sampler =
  channels :: "Channel list"
  players :: "SamplePlayer list"
  masterVolume :: real
  messageQueue :: "Message list"

text \<open>
  Lines 296-307. The channel methods run on the sampler itself, so the weak reference
  is alive: \<open>lock\<close> is the pool of the sampler.
\<close>

definition dispatch ::
  "(Sample option \<Rightarrow> u8 \<Rightarrow> real \<Rightarrow> real \<Rightarrow> u8 \<Rightarrow> SamplePlayer) \<Rightarrow> real list \<Rightarrow>
   Sampler \<Rightarrow> Message \<Rightarrow> error + Sampler" where
  "dispatch new velocityTable S m =
     (let ch = unat (channel_msg m)
      in if \<not> ch < length (channels S) then Inl OutOfBounds
         else
           (case (case status m of
                    NOTE_ON \<Rightarrow> Channel_NoteOn new velocityTable (channel_msg m) (noteNo_msg m) (velocity m)
                                 (channels S ! ch, Some (players S))
                  | NOTE_OFF \<Rightarrow> Channel_NoteOff (channel_msg m) (noteNo_msg m) (velocity m)
                                 (channels S ! ch, Some (players S))
                  | PITCH_BEND \<Rightarrow> Channel_PitchBend (channel_msg m) (pitchBend_msg m)
                                 (channels S ! ch, Some (players S))) of
              Inl err \<Rightarrow> Inl err
            | Inr (c', lock') \<Rightarrow>
                Inr (S\<lparr>channels := (channels S)[ch := c'],
                       players := (case lock' of None \<Rightarrow> players S | Some ps \<Rightarrow> ps)\<rparr>)))"

text \<open>Lines 289-311: the queue is drained in order.\<close>

fun drain ::
  "(Sample option \<Rightarrow> u8 \<Rightarrow> real \<Rightarrow> real \<Rightarrow> u8 \<Rightarrow> SamplePlayer) \<Rightarrow> real list \<Rightarrow>
   Message list \<Rightarrow> Sampler \<Rightarrow> error + Sampler" where
  "drain new velocityTable [] S = Inr S"
| "drain new velocityTable (m # ms) S =
     (case dispatch new velocityTable (S\<lparr>messageQueue := ms\<rparr>) m of
        Inl err \<Rightarrow> Inl err
      | Inr S' \<Rightarrow> drain new velocityTable ms S')"

text \<open>
  \<open>Process\<close> up to the end of the mixing pass: the sampler afterwards and the mix bus
  \<^verbatim>\<open>data\<close> handed to the master effect. \<open>N\<close> is \<open>SAMPLE_BUFFER_SIZE\<close>. The reverb
  and the conversion to 16-bit output (lines 376-436) do not touch the sampler's state
  and are not modelled.
\<close>

definition Process ::
  "(real \<Rightarrow> real) \<Rightarrow> (Sample option \<Rightarrow> u8 \<Rightarrow> real \<Rightarrow> real \<Rightarrow> u8 \<Rightarrow> SamplePlayer) \<Rightarrow> real list \<Rightarrow> nat \<Rightarrow> nat \<Rightarrow>
   Sampler \<Rightarrow> error + (Sampler \<times> real list)" where
  "Process rnd new velocityTable N A S =
     (case drain new velocityTable (messageQueue S) S of
        Inl err \<Rightarrow> Inl err
      | Inr S1 \<Rightarrow>
          (case Process_players rnd (masterVolume S1) A (N div A) (players S1) (replicate N 0) of
             Inl err \<Rightarrow> Inl err
           | Inr (ps', d_buf) \<Rightarrow> Inr (S1\<lparr>players := ps'\<rparr>, d_buf)))"

section \<open>Concrete samples, voices and channels\<close>

text \<open>
  A looping sample with the envelope enabled, a one-shot sample without it, a timbre that
  maps every note and velocity to the looping sample, and a few voices and channels.
  Their numbers, and the results of the operations the concrete runs below perform on
  them, are binary32 values, so rounding leaves them as they are: \<open>ex_rnd\<close>. (The
  threshold \<open>0.001\<close> is not one; the gains of those runs are far from it.)
\<close>

definition ex_rnd :: "real \<Rightarrow> real" where
  "ex_rnd x = x"

text \<open>
  Rounding to the nearest multiple of \<open>2^-n\<close>. On the values \<open>x\<close> with
  \<open>2^(23-n) \<le> x < 2^(24-n)\<close>, whose unit in the last place is \<open>2^-n\<close>, and when \<open>x\<close>
  is not half way between two multiples, this is the rounding of binary32; the runs below
  that depend on the rounding use it on such values and on binary32 values only.
\<close>

definition ex_round :: "nat \<Rightarrow> real \<Rightarrow> real" where
  "ex_round n x = of_int \<lfloor>x * 2 ^ n + 1/2\<rfloor> / 2 ^ n"

definition ex_sample :: Sample where
  "ex_sample = \<lparr>sample_pcm = [0, 8, 16, 8, 0], length_smp = 4, root = 60, loopStart = 1,
     loopEnd = 3, adsrEnabled = True, attack = 1/2, decay = 1/2, sustain = 1/2, release = 1/2\<rparr>"

definition ex_oneshot :: Sample where
  "ex_oneshot = ex_sample\<lparr>adsrEnabled := False\<rparr>"

definition ex_timbre :: Timbre where
  "ex_timbre = \<lparr>samples = [\<lparr>sample_ms = ex_sample, lowerNoteNo = 0, upperNoteNo = 127,
                              lowerVelocity = 0, upperVelocity = 127\<rparr>]\<rparr>"

definition ex_narrow_timbre :: Timbre where
  "ex_narrow_timbre = \<lparr>samples = [\<lparr>sample_ms = ex_sample, lowerNoteNo = 60, upperNoteNo = 72,
                                     lowerVelocity = 1, upperVelocity = 127\<rparr>]\<rparr>"

definition ex_velocityTable :: "real list" where
  "ex_velocityTable = [0, 1/4, 1/2, 1]"

definition ex_player :: SamplePlayer where
  "ex_player = \<lparr>sample = Some ex_sample, noteNo = 72, volume = 1, pitchBend = 0, channel = 0,
     createdAt = 5, pos = 0, pos_f = 0, playing = True, released = False, gain = 1, pitch = 2,
     adsrState = Sustain\<rparr>"

definition ex_idle :: SamplePlayer where
  "ex_idle = \<lparr>sample = None, noteNo = 60, volume = 1, pitchBend = 0, channel = 0,
     createdAt = 0, pos = 0, pos_f = 0, playing = False, released = False, gain = 0, pitch = 1,
     adsrState = Attack\<rparr>"

definition ex_channel :: Channel where
  "ex_channel = \<lparr>timbre = Some ex_timbre, pitchBend_ch = 0, playingNotes = []\<rparr>"

text \<open>
  A channel that believes it holds four notes, over a pool of three voices: voice 0 still
  plays note 72 of channel 0, voice 1 was stolen for note 60, voice 2 was stolen by
  channel 1.
\<close>

definition ex_held :: Channel where
  "ex_held = ex_channel\<lparr>playingNotes :=
     [\<lparr>noteNo_pn = 72, playerId = 0\<rparr>, \<lparr>noteNo_pn = 60, playerId = 1\<rparr>,
      \<lparr>noteNo_pn = 72, playerId = 1\<rparr>, \<lparr>noteNo_pn = 72, playerId = 2\<rparr>]\<rparr>"

definition ex_pool :: "SamplePlayer list" where
  "ex_pool = [ex_player, ex_player\<lparr>noteNo := 60\<rparr>, ex_player\<lparr>channel := 1\<rparr>]"

text \<open>
  A voice of channel 0 that still sounds after its NoteOff (the one-shot sample plays to
  its end whatever \<open>released\<close> says): the channel was bent by -12 semitones when the
  note 72 started, and the note has been released since, so the channel holds no entry
  for it.
\<close>

definition ex_oneshot_timbre :: Timbre where
  "ex_oneshot_timbre = \<lparr>samples = [\<lparr>sample_ms = ex_oneshot, lowerNoteNo = 0, upperNoteNo = 127,
                                      lowerVelocity = 0, upperVelocity = 127\<rparr>]\<rparr>"

definition ex_released :: SamplePlayer where
  "ex_released = \<lparr>sample = Some ex_oneshot, noteNo = 72, volume = 1/2, pitchBend = -12, channel = 0,
     createdAt = 9, pos = 0, pos_f = 0, playing = True, released = True, gain = 1/2, pitch = 1,
     adsrState = Attack\<rparr>"

definition ex_bent :: Channel where
  "ex_bent = \<lparr>timbre = Some ex_oneshot_timbre, pitchBend_ch = -12, playingNotes = []\<rparr>"

text \<open>
  A channel whose timbre has no sample for note 10, the voice a NoteOn of that note
  leaves behind, and a sampler with three queued messages.
\<close>

definition ex_narrow :: Channel where
  "ex_narrow = \<lparr>timbre = Some ex_narrow_timbre, pitchBend_ch = 0, playingNotes = []\<rparr>"

definition ex_dropped :: SamplePlayer where
  "ex_dropped = SamplePlayer_new 9 None 10 (1/2) 0 0"

definition ex_Sampler :: Sampler where
  "ex_Sampler = \<lparr>channels = [ex_narrow\<lparr>playingNotes := [\<lparr>noteNo_pn = 10, playerId = 0\<rparr>]\<rparr>],
     players = [ex_dropped], masterVolume = 1,
     messageQueue =
       [\<lparr>status = PITCH_BEND, channel_msg = 0, noteNo_msg = 0, velocity = 0, pitchBend_msg = 4096\<rparr>,
        \<lparr>status = NOTE_ON, channel_msg = 0, noteNo_msg = 10, velocity = 2, pitchBend_msg = 0\<rparr>,
        \<lparr>status = NOTE_OFF, channel_msg = 0, noteNo_msg = 11, velocity = 0, pitchBend_msg = 0\<rparr>]\<rparr>"

text \<open>
  Voices that run through the sample quickly (a pitch of 3 samples per output sample),
  on the looping sample and on the one-shot sample, and the voice a NoteOn constructs on
  the one-shot sample.
\<close>

definition ex_fast :: SamplePlayer where
  "ex_fast = ex_player\<lparr>pitch := 3\<rparr>"

definition ex_oneshot_voice :: SamplePlayer where
  "ex_oneshot_voice = SamplePlayer_new 9 (Some ex_oneshot) 72 (1/2) 0 0"

definition ex_fast_oneshot :: SamplePlayer where
  "ex_fast_oneshot = ex_fast\<lparr>sample := Some ex_oneshot\<rparr>"

text \<open>
  The same fast voice on a sample with the envelope enabled whose loop points are not a
  region: \<open>loopStart = 1\<close>, \<open>loopEnd = 0\<close>.
\<close>

definition ex_noloop :: SamplePlayer where
  "ex_noloop = ex_fast\<lparr>sample := Some (ex_sample\<lparr>loopEnd := 0\<rparr>)\<rparr>"

section \<open>The life of one voice\<close>

text \<open>
  The states one voice on the sample \<open>s\<close> goes through from its allocation on, by the
  statements of Sampler.cpp that write to a voice of the pool: the constructor call of
  NoteOn (lines 104 and 117), PitchBend (lines 163-164), NoteOff (line 140) and the
  envelope steps of the mixing pass while the voice is playing (lines 323-372). A later
  NoteOn that takes the same slot starts another voice.
\<close>

inductive voice_run :: "(real \<Rightarrow> real) \<Rightarrow> Sample \<Rightarrow> SamplePlayer \<Rightarrow> bool"
  for rnd :: "real \<Rightarrow> real" and s :: Sample where
  allocated: "voice_run rnd s (SamplePlayer_new tick (Some s) n vol bend ch)"
| bent: "voice_run rnd s p \<Longrightarrow> voice_run rnd s (UpdatePitch (p\<lparr>pitchBend := b\<rparr>))"
| note_off: "voice_run rnd s p \<Longrightarrow> voice_run rnd s (p\<lparr>released := True\<rparr>)"
| mixed: "voice_run rnd s p \<Longrightarrow> playing p \<Longrightarrow>
          Process_step rnd mv A j (p, d_buf) = Inr (Continue (p', d_buf')) \<Longrightarrow> voice_run rnd s p'"
| stopped: "voice_run rnd s p \<Longrightarrow> playing p \<Longrightarrow>
          Process_step rnd mv A j (p, d_buf) = Inr (Break (p', d_buf')) \<Longrightarrow> voice_run rnd s p'"

section \<open>Voice allocation on NoteOn\<close>

lemma find_player_idle:
  "\<exists>j. i \<le> j \<and> j < length ps \<and> \<not> playing (ps ! j) \<Longrightarrow>
     i \<le> find_player ps i old \<and> find_player ps i old < length ps
     \<and> \<not> playing (ps ! find_player ps i old)
     \<and> (\<forall>j. i \<le> j \<and> j < find_player ps i old \<longrightarrow> playing (ps ! j))"
proof (induction ps i old rule: find_player.induct)
  case (1 ps i old)
  from "1.prems" have il: "i < length ps" by auto
  show ?case
  proof (cases "playing (ps ! i)")
    case False
    then show ?thesis using il by (auto simp: find_player.simps [of ps i old])
  next
    case True
    define old' where "old' = (if createdAt (ps ! i) < createdAt (ps ! old) then i else old)"
    have step: "find_player ps i old = find_player ps (Suc i) old'"
      using il True by (simp add: find_player.simps [of ps i old] old'_def)
    from "1.prems" True have ex: "\<exists>j. Suc i \<le> j \<and> j < length ps \<and> \<not> playing (ps ! j)"
      by (metis Suc_leI le_neq_implies_less)
    have IH: "Suc i \<le> find_player ps (Suc i) old' \<and> find_player ps (Suc i) old' < length ps
     \<and> \<not> playing (ps ! find_player ps (Suc i) old')
     \<and> (\<forall>j. Suc i \<le> j \<and> j < find_player ps (Suc i) old' \<longrightarrow> playing (ps ! j))"
      using "1.IH" [OF il _ ex] True by (simp add: old'_def)
    show ?thesis
      unfolding step using IH True
      by (metis Suc_leD le_neq_implies_less Suc_leI)
  qed
qed

lemma find_player_oldest:
  "\<forall>j. i \<le> j \<and> j < length ps \<longrightarrow> playing (ps ! j) \<Longrightarrow> old < length ps \<Longrightarrow>
     find_player ps i old < length ps
     \<and> createdAt (ps ! find_player ps i old) \<le> createdAt (ps ! old)
     \<and> (\<forall>j. i \<le> j \<and> j < length ps \<longrightarrow> createdAt (ps ! find_player ps i old) \<le> createdAt (ps ! j))"
proof (induction ps i old rule: find_player.induct)
  case (1 ps i old)
  show ?case
  proof (cases "i < length ps")
    case False
    then show ?thesis using "1.prems" by (simp add: find_player.simps [of ps i old])
  next
    case True
    have pl: "playing (ps ! i)" using "1.prems" True by simp
    define old' where "old' = (if createdAt (ps ! i) < createdAt (ps ! old) then i else old)"
    have step: "find_player ps i old = find_player ps (Suc i) old'"
      using True pl by (simp add: find_player.simps [of ps i old] old'_def)
    have o': "old' < length ps" using True "1.prems" by (simp add: old'_def)
    have all: "\<forall>j. Suc i \<le> j \<and> j < length ps \<longrightarrow> playing (ps ! j)" using "1.prems" by simp
    have IH: "find_player ps (Suc i) old' < length ps
     \<and> createdAt (ps ! find_player ps (Suc i) old') \<le> createdAt (ps ! old')
     \<and> (\<forall>j. Suc i \<le> j \<and> j < length ps \<longrightarrow> createdAt (ps ! find_player ps (Suc i) old') \<le> createdAt (ps ! j))"
      using "1.IH" [OF True _ all] pl o' by (simp add: old'_def)
    have le: "createdAt (ps ! old') \<le> createdAt (ps ! old) \<and> createdAt (ps ! old') \<le> createdAt (ps ! i)"
      by (simp add: old'_def)
    show ?thesis
      unfolding step
    proof (intro conjI allI impI)
      show "find_player ps (Suc i) old' < length ps" using IH by simp
      show "createdAt (ps ! find_player ps (Suc i) old') \<le> createdAt (ps ! old)"
        using IH le by linarith
      fix j assume j: "i \<le> j \<and> j < length ps"
      show "createdAt (ps ! find_player ps (Suc i) old') \<le> createdAt (ps ! j)"
      proof (cases "j = i")
        case True
        then show ?thesis using IH le by simp
      next
        case False
        then have "Suc i \<le> j" using j by simp
        then show ?thesis using IH j by simp
      qed
    qed
  qed
qed

lemma find_player_in_pool: "pool \<noteq> [] \<Longrightarrow> find_player pool 0 0 < length pool"
proof (cases "\<exists>j. 0 \<le> j \<and> j < length pool \<and> \<not> playing (pool ! j)")
  case True
  from find_player_idle [OF this] show ?thesis by simp
next
  case False
  assume "pool \<noteq> []"
  then have "0 < length pool" by simp
  moreover from False have "\<forall>j. 0 \<le> j \<and> j < length pool \<longrightarrow> playing (pool ! j)" by simp
  ultimately show ?thesis using find_player_oldest by blast
qed

lemma Channel_NoteOn_alive:
  assumes "timbre c = Some t" and "unat v < length velocityTable" and "pool \<noteq> []"
  shows "Channel_NoteOn new velocityTable idx n v (c, Some pool)
           = Inr (c\<lparr>playingNotes := playingNotes c @ [\<lparr>noteNo_pn = n, playerId = find_player pool 0 0\<rparr>]\<rparr>,
                  Some (pool[find_player pool 0 0 :=
                               new (GetAppropriateSample t n v) n (velocityTable ! unat v)
                                   (pitchBend_ch c) idx]))"
  using assms find_player_in_pool [OF assms(3)]
  by (simp add: Channel_NoteOn_def Let_def)

text \<open>
  Claim C1. A NoteOn on a channel with a live sampler (a timbre set, the velocity inside
  the table, a voice pool that is not empty) picks one voice \<open>k\<close> in a single scan: when some
  voice is not playing, \<open>k\<close> is the lowest index of such a voice; when every voice is
  playing, \<open>k\<close> is a voice whose \<open>createdAt\<close> is the smallest of the pool. The voice at
  \<open>k\<close> is replaced, whatever it was, by the voice constructed from the matching sample,
  the note, the table's volume for the velocity, the channel's pitch bend and the channel
  index; the channel records \<open>(noteNo, k)\<close>.
\<close>

theorem NoteOn_allocates:
  assumes "timbre c = Some t" and "unat v < length velocityTable" and "pool \<noteq> []"
  shows "\<exists>k<length pool.
           Channel_NoteOn new velocityTable idx n v (c, Some pool)
             = Inr (c\<lparr>playingNotes := playingNotes c @ [\<lparr>noteNo_pn = n, playerId = k\<rparr>]\<rparr>,
                    Some (pool[k := new (GetAppropriateSample t n v) n (velocityTable ! unat v)
                                           (pitchBend_ch c) idx]))
           \<and> (if \<exists>i<length pool. \<not> playing (pool ! i)
               then \<not> playing (pool ! k) \<and> (\<forall>i<k. playing (pool ! i))
               else (\<forall>i<length pool. createdAt (pool ! k) \<le> createdAt (pool ! i)))"
proof -
  define k where "k = find_player pool 0 0"
  have len: "0 < length pool" using assms(3) by simp
  have kl: "k < length pool" using find_player_in_pool [OF assms(3)] by (simp add: k_def)
  have sel: "if \<exists>i<length pool. \<not> playing (pool ! i)
             then \<not> playing (pool ! k) \<and> (\<forall>i<k. playing (pool ! i))
             else (\<forall>i<length pool. createdAt (pool ! k) \<le> createdAt (pool ! i))"
  proof (cases "\<exists>i<length pool. \<not> playing (pool ! i)")
    case True
    then have "\<exists>j. 0 \<le> j \<and> j < length pool \<and> \<not> playing (pool ! j)" by simp
    from find_player_idle [OF this, of 0] True show ?thesis by (simp add: k_def)
  next
    case False
    then have "\<forall>j. 0 \<le> j \<and> j < length pool \<longrightarrow> playing (pool ! j)" by simp
    from find_player_oldest [OF this len] False show ?thesis by (simp add: k_def)
  qed
  have run: "Channel_NoteOn new velocityTable idx n v (c, Some pool)
             = Inr (c\<lparr>playingNotes := playingNotes c @ [\<lparr>noteNo_pn = n, playerId = k\<rparr>]\<rparr>,
                    Some (pool[k := new (GetAppropriateSample t n v) n (velocityTable ! unat v)
                                           (pitchBend_ch c) idx]))"
    unfolding k_def by (rule Channel_NoteOn_alive [OF assms])
  show ?thesis
    using kl run sel by (intro exI [of _ k]) (simp split: if_splits)
qed

lemma find_player_ex_idle: "find_player [ex_player, ex_idle, ex_idle] 0 0 = 1"
  by (simp add: find_player.simps ex_player_def ex_idle_def)

lemma find_player_ex_oldest:
  "find_player [ex_player\<lparr>createdAt := 7\<rparr>, ex_player\<lparr>createdAt := 3\<rparr>, ex_player] 0 0 = 1"
  by (simp add: find_player.simps ex_player_def)

lemma GetAppropriateSample_ex: "GetAppropriateSample ex_timbre 64 2 = Some ex_sample"
  by (simp add: GetAppropriateSample_def ex_timbre_def)

theorem NoteOn_allocates_witness:
  "Channel_NoteOn (SamplePlayer_new 9) ex_velocityTable 0 64 2 (ex_channel, Some [ex_player, ex_idle, ex_idle])
     = Inr (ex_channel\<lparr>playingNotes := [\<lparr>noteNo_pn = 64, playerId = 1\<rparr>]\<rparr>,
            Some [ex_player, SamplePlayer_new 9 (Some ex_sample) 64 (1/2) 0 0, ex_idle])
   \<and> Channel_NoteOn (SamplePlayer_new 9) ex_velocityTable 0 64 2
        (ex_channel, Some [ex_player\<lparr>createdAt := 7\<rparr>, ex_player\<lparr>createdAt := 3\<rparr>, ex_player])
     = Inr (ex_channel\<lparr>playingNotes := [\<lparr>noteNo_pn = 64, playerId = 1\<rparr>]\<rparr>,
            Some [ex_player\<lparr>createdAt := 7\<rparr>, SamplePlayer_new 9 (Some ex_sample) 64 (1/2) 0 0, ex_player])"
proof -
  have t: "timbre ex_channel = Some ex_timbre" by (simp add: ex_channel_def)
  have v: "unat (2::u8) < length ex_velocityTable" by (simp add: ex_velocityTable_def)
  have a: "[ex_player, ex_idle, ex_idle] \<noteq> []" by simp
  have b: "[ex_player\<lparr>createdAt := 7\<rparr>, ex_player\<lparr>createdAt := 3\<rparr>, ex_player] \<noteq> []" by simp
  show ?thesis
    using NoteOn_allocates [OF t v a, of "SamplePlayer_new 9" 0 64]
          NoteOn_allocates [OF t v b, of "SamplePlayer_new 9" 0 64]
    by (simp add: Channel_NoteOn_def find_player_ex_idle find_player_ex_oldest
          GetAppropriateSample_ex ex_channel_def ex_velocityTable_def)
qed

section \<open>NoteOff\<close>

lemma NoteOff_loop_spec:
  assumes "\<forall>e\<in>set es. noteNo_pn e = n \<longrightarrow> playerId e < length ps"
  shows "\<exists>ps'. NoteOff_loop idx n es ps = Inr (filter (\<lambda>e. noteNo_pn e \<noteq> n) es, ps')
               \<and> length ps' = length ps
               \<and> (\<forall>i<length ps. ps' ! i =
                     (if (\<exists>e\<in>set es. noteNo_pn e = n \<and> playerId e = i)
                         \<and> noteNo (ps ! i) = n \<and> channel (ps ! i) = idx
                      then (ps ! i)\<lparr>released := True\<rparr> else ps ! i))"
  using assms
proof (induction es arbitrary: ps)
  case Nil
  then show ?case by simp
next
  case (Cons e es)
  show ?case
  proof (cases "noteNo_pn e = n")
    case False
    from Cons.prems have "\<forall>e\<in>set es. noteNo_pn e = n \<longrightarrow> playerId e < length ps" by simp
    from Cons.IH [OF this] obtain ps' where
      h: "NoteOff_loop idx n es ps = Inr (filter (\<lambda>e. noteNo_pn e \<noteq> n) es, ps')"
         "length ps' = length ps"
         "\<forall>i<length ps. ps' ! i =
                     (if (\<exists>e\<in>set es. noteNo_pn e = n \<and> playerId e = i)
                         \<and> noteNo (ps ! i) = n \<and> channel (ps ! i) = idx
                      then (ps ! i)\<lparr>released := True\<rparr> else ps ! i)"
      by blast
    show ?thesis
      using False h by auto
  next
    case True
    define j where "j = playerId e"
    define ps1 where "ps1 = (if noteNo (ps ! j) = n \<and> channel (ps ! j) = idx
                             then ps[j := (ps ! j)\<lparr>released := True\<rparr>] else ps)"
    have j: "j < length ps" using Cons.prems True by (simp add: j_def)
    have len1: "length ps1 = length ps" by (simp add: ps1_def)
    have nc: "\<And>i. i < length ps \<Longrightarrow> noteNo (ps1 ! i) = noteNo (ps ! i) \<and> channel (ps1 ! i) = channel (ps ! i)"
      using j by (auto simp: ps1_def nth_list_update)
    from Cons.prems have "\<forall>e\<in>set es. noteNo_pn e = n \<longrightarrow> playerId e < length ps1"
      by (simp add: len1)
    from Cons.IH [OF this] obtain ps' where
      h: "NoteOff_loop idx n es ps1 = Inr (filter (\<lambda>e. noteNo_pn e \<noteq> n) es, ps')"
         "length ps' = length ps1"
         "\<forall>i<length ps1. ps' ! i =
                     (if (\<exists>e\<in>set es. noteNo_pn e = n \<and> playerId e = i)
                         \<and> noteNo (ps1 ! i) = n \<and> channel (ps1 ! i) = idx
                      then (ps1 ! i)\<lparr>released := True\<rparr> else ps1 ! i)"
      by blast
    have run: "NoteOff_loop idx n (e # es) ps = NoteOff_loop idx n es ps1"
      using True j by (simp add: j_def ps1_def Let_def)
    have pt: "\<forall>i<length ps. ps' ! i =
                     (if (\<exists>e'\<in>set (e # es). noteNo_pn e' = n \<and> playerId e' = i)
                         \<and> noteNo (ps ! i) = n \<and> channel (ps ! i) = idx
                      then (ps ! i)\<lparr>released := True\<rparr> else ps ! i)"
    proof (intro allI impI)
      fix i assume i: "i < length ps"
      have a: "ps' ! i = (if (\<exists>e\<in>set es. noteNo_pn e = n \<and> playerId e = i)
                         \<and> noteNo (ps ! i) = n \<and> channel (ps ! i) = idx
                      then (ps1 ! i)\<lparr>released := True\<rparr> else ps1 ! i)"
        using h(3) i nc [OF i] by (simp add: len1)
      show "ps' ! i =
                     (if (\<exists>e'\<in>set (e # es). noteNo_pn e' = n \<and> playerId e' = i)
                         \<and> noteNo (ps ! i) = n \<and> channel (ps ! i) = idx
                      then (ps ! i)\<lparr>released := True\<rparr> else ps ! i)"
      proof (cases "i = j")
        case True
        then show ?thesis using a i \<open>noteNo_pn e = n\<close>
          by (auto simp: ps1_def j_def)
      next
        case False
        then have "ps1 ! i = ps ! i" by (simp add: ps1_def)
        then show ?thesis using a False by (auto simp: j_def)
      qed
    qed
    show ?thesis
      using run h(1,2) pt True by (auto simp: len1)
  qed
qed

text \<open>
  Claim C2. A NoteOff for note \<open>n\<close> on a channel with a live sampler erases every entry
  of \<open>playingNotes\<close> with that note and keeps the others in order. A voice of the pool
  gets \<open>released = true\<close> exactly when an erased entry refers to it and the voice still
  has the note \<open>n\<close> and this channel's index; every other voice (one that was stolen for
  another note or by another channel, or that no erased entry refers to) is unchanged.
\<close>

theorem NoteOff_releases_and_erases:
  assumes "\<forall>e\<in>set (playingNotes c). noteNo_pn e = n \<longrightarrow> playerId e < length pool"
  shows "\<exists>pool'.
           Channel_NoteOff idx n v (c, Some pool)
             = Inr (c\<lparr>playingNotes := filter (\<lambda>e. noteNo_pn e \<noteq> n) (playingNotes c)\<rparr>, Some pool')
           \<and> length pool' = length pool
           \<and> (\<forall>i<length pool. pool' ! i =
                 (if (\<exists>e\<in>set (playingNotes c). noteNo_pn e = n \<and> playerId e = i)
                     \<and> noteNo (pool ! i) = n \<and> channel (pool ! i) = idx
                  then (pool ! i)\<lparr>released := True\<rparr> else pool ! i))"
proof -
  from NoteOff_loop_spec [OF assms, of idx] obtain ps' where
    h: "NoteOff_loop idx n (playingNotes c) pool = Inr (filter (\<lambda>e. noteNo_pn e \<noteq> n) (playingNotes c), ps')"
       "length ps' = length pool"
       "\<forall>i<length pool. ps' ! i =
                 (if (\<exists>e\<in>set (playingNotes c). noteNo_pn e = n \<and> playerId e = i)
                     \<and> noteNo (pool ! i) = n \<and> channel (pool ! i) = idx
                  then (pool ! i)\<lparr>released := True\<rparr> else pool ! i)"
    by blast
  show ?thesis
    by (rule exI [of _ ps']) (simp add: Channel_NoteOff_def h)
qed

theorem NoteOff_releases_and_erases_witness:
  "Channel_NoteOff 0 72 0 (ex_held, Some ex_pool)
     = Inr (ex_held\<lparr>playingNotes := [\<lparr>noteNo_pn = 60, playerId = 1\<rparr>]\<rparr>,
            Some [ex_player\<lparr>released := True\<rparr>, ex_player\<lparr>noteNo := 60\<rparr>, ex_player\<lparr>channel := 1\<rparr>])"
proof -
  have h: "\<forall>e\<in>set (playingNotes ex_held). noteNo_pn e = 72 \<longrightarrow> playerId e < length ex_pool"
    by (simp add: ex_held_def ex_pool_def)
  show ?thesis
    using NoteOff_releases_and_erases [OF h, of 0 0]
    by (simp add: Channel_NoteOff_def ex_held_def ex_pool_def ex_player_def ex_channel_def)
qed

section \<open>The envelope\<close>

text \<open>
  Claim C5. An envelope step on a voice whose sample is present with the envelope enabled:
  when the voice is released, the segment becomes release whatever it was (attack, decay
  or sustain); in the release segment the gain becomes the binary32 product of the gain
  and the sample's release coefficient, and when that product is below \<^verbatim>\<open>0.001f\<close>
  the gain becomes 0 and the voice stops playing.
\<close>

theorem UpdateGain_release:
  assumes "sample p = Some s" and "adsrEnabled s" and "released p \<or> adsrState p = Release"
  shows "UpdateGain rnd p =
           (if rnd (gain p * release s) < rnd 0.001
            then p\<lparr>adsrState := Release, gain := 0, playing := False\<rparr>
            else p\<lparr>adsrState := Release, gain := rnd (gain p * release s)\<rparr>)"
  using assms by (auto simp: UpdateGain_def Let_def)

lemma ex_round_threshold:
  "ex_round 33 (1/1000) = 8589935 / 2 ^ 33"
  "ex_round 33 (16659267 / 2 ^ 33 * (33/64)) = 8589935 / 2 ^ 33"
  by (simp_all add: ex_round_def)

text \<open>
  The witness runs three steps: a released voice in the sustain segment with gain 1 goes
  to release with gain 1/2; a released voice in the decay segment with gain 1/1024 goes
  to release, falls below the threshold and stops; and, in binary32, a released voice
  with gain \<open>16659267 / 2^33\<close> and release coefficient \<open>33/64\<close>: the exact product is
  below 1/1000, its binary32 value is \<^verbatim>\<open>0.001f\<close> \<open>= 8589935 / 2^33\<close>, which is not below
  \<^verbatim>\<open>0.001f\<close>, so the voice keeps playing with that gain.
\<close>

theorem UpdateGain_release_witness:
  "UpdateGain ex_rnd (ex_player\<lparr>released := True\<rparr>)
     = ex_player\<lparr>released := True, adsrState := Release, gain := 1/2\<rparr>
   \<and> UpdateGain ex_rnd (ex_player\<lparr>released := True, gain := 1/1024, adsrState := Decay\<rparr>)
       = ex_player\<lparr>released := True, adsrState := Release, gain := 0, playing := False\<rparr>
   \<and> UpdateGain (ex_round 33)
         (ex_player\<lparr>sample := Some (ex_sample\<lparr>release := 33/64\<rparr>), released := True,
                      gain := 16659267 / 2 ^ 33\<rparr>)
       = ex_player\<lparr>sample := Some (ex_sample\<lparr>release := 33/64\<rparr>), released := True,
                     adsrState := Release, gain := 8589935 / 2 ^ 33\<rparr>
   \<and> 16659267 / 2 ^ 33 * (33/64) < (1/1000 :: real)"
proof -
  have a: "UpdateGain ex_rnd (ex_player\<lparr>released := True\<rparr>)
     = ex_player\<lparr>released := True, adsrState := Release, gain := 1/2\<rparr>"
    using UpdateGain_release [of "ex_player\<lparr>released := True\<rparr>" ex_sample ex_rnd]
    by (simp add: ex_player_def ex_sample_def ex_rnd_def)
  have b: "UpdateGain ex_rnd (ex_player\<lparr>released := True, gain := 1/1024, adsrState := Decay\<rparr>)
       = ex_player\<lparr>released := True, adsrState := Release, gain := 0, playing := False\<rparr>"
    using UpdateGain_release [of "ex_player\<lparr>released := True, gain := 1/1024, adsrState := Decay\<rparr>"
            ex_sample ex_rnd]
    by (simp add: ex_player_def ex_sample_def ex_rnd_def)
  define p where "p = ex_player\<lparr>sample := Some (ex_sample\<lparr>release := 33/64\<rparr>), released := True,
                      gain := 16659267 / 2 ^ 33\<rparr>"
  have p1: "sample p = Some (ex_sample\<lparr>release := 33/64\<rparr>)" by (simp add: p_def)
  have p2: "adsrEnabled (ex_sample\<lparr>release := 33/64\<rparr>)" by (simp add: ex_sample_def)
  have p3: "released p \<or> adsrState p = Release" by (simp add: p_def)
  have p4: "ex_round 33 (gain p * release (ex_sample\<lparr>release := 33/64\<rparr>)) = 8589935 / 2 ^ 33"
    using ex_round_threshold(2) by (simp add: p_def)
  have p5: "ex_round 33 0.001 = 8589935 / 2 ^ 33"
    using ex_round_threshold(1) by simp
  have "UpdateGain (ex_round 33) p = p\<lparr>adsrState := Release, gain := 8589935 / 2 ^ 33\<rparr>"
    using UpdateGain_release [OF p1 p2 p3, of "ex_round 33"] by (simp only: p4 p5) simp
  then have c: "UpdateGain (ex_round 33)
         (ex_player\<lparr>sample := Some (ex_sample\<lparr>release := 33/64\<rparr>), released := True,
                      gain := 16659267 / 2 ^ 33\<rparr>)
       = ex_player\<lparr>sample := Some (ex_sample\<lparr>release := 33/64\<rparr>), released := True,
                     adsrState := Release, gain := 8589935 / 2 ^ 33\<rparr>"
    by (simp add: p_def)
  have d: "16659267 / 2 ^ 33 * (33/64) < (1/1000 :: real)" by simp
  show ?thesis using a b c d by blast
qed

text \<open>
  The rounding decides at the threshold: a product that rounds to \<^verbatim>\<open>0.001f\<close> itself
  is not below it, and the voice keeps playing with that gain.
\<close>

lemma UpdateGain_release_at_threshold:
  assumes "sample p = Some s" and "adsrEnabled s" and "released p"
      and "rnd (gain p * release s) = rnd 0.001"
  shows "UpdateGain rnd p = p\<lparr>adsrState := Release, gain := rnd 0.001\<rparr>"
  using assms by (simp add: UpdateGain_def Let_def)

section \<open>A freed sampler\<close>

text \<open>
  When the weak reference cannot be upgraded, NoteOn and NoteOff return with the channel
  as it was; PitchBend has stored the new bend in the channel (line 149) before it tries
  the reference (line 152).
\<close>

lemma Channel_methods_freed_sampler:
  "Channel_NoteOn new velocityTable idx n v (c, None) = Inr (c, None)
   \<and> Channel_NoteOff idx n v (c, None) = Inr (c, None)
   \<and> Channel_PitchBend idx b (c, None)
       = Inr (c\<lparr>pitchBend_ch := real_of_int (sint b) * 12 / 8192\<rparr>, None)"
  by (simp add: Channel_NoteOn_def Channel_NoteOff_def Channel_PitchBend_def)

text \<open>
  Claim C9 at PitchBend(4096) on a channel whose sampler has been freed: the method is
  to do nothing (the comment of line 153, and what NoteOn and NoteOff do), but the
  channel's stored bend changes from 0 to 6 semitones.
\<close>

theorem PitchBend_on_freed_sampler:
  "Channel_PitchBend 0 4096 (ex_channel, None) = Inr (ex_channel\<lparr>pitchBend_ch := 6\<rparr>, None)
   \<and> pitchBend_ch (ex_channel\<lparr>pitchBend_ch := 6\<rparr>) \<noteq> pitchBend_ch ex_channel"
  by (simp add: Channel_PitchBend_def ex_channel_def)

section \<open>Pitch bend\<close>

lemma UpdatePitch_bend_absorb:
  "UpdatePitch ((UpdatePitch (p\<lparr>pitchBend := a\<rparr>))\<lparr>pitchBend := b\<rparr>) = UpdatePitch (p\<lparr>pitchBend := b\<rparr>)"
  by (simp add: UpdatePitch_def Let_def split: option.splits)

lemma UpdatePitch_fields [simp]:
  "channel (UpdatePitch p) = channel p" "noteNo (UpdatePitch p) = noteNo p"
  "sample (UpdatePitch p) = sample p" "pitchBend (UpdatePitch p) = pitchBend p"
  by (simp_all add: UpdatePitch_def Let_def split: option.splits)

lemma PitchBend_loop_spec:
  assumes "\<forall>e\<in>set es. playerId e < length ps"
  shows "\<exists>ps'. PitchBend_loop idx bend es ps = Inr ps'
               \<and> length ps' = length ps
               \<and> (\<forall>i<length ps. ps' ! i =
                     (if (\<exists>e\<in>set es. playerId e = i) \<and> channel (ps ! i) = idx
                      then UpdatePitch ((ps ! i)\<lparr>pitchBend := bend\<rparr>) else ps ! i))"
  using assms
proof (induction es arbitrary: ps)
  case Nil
  then show ?case by simp
next
  case (Cons e es)
  define j where "j = playerId e"
  define ps1 where "ps1 = (if channel (ps ! j) = idx
                           then ps[j := UpdatePitch ((ps ! j)\<lparr>pitchBend := bend\<rparr>)] else ps)"
  have j: "j < length ps" using Cons.prems by (simp add: j_def)
  have len1: "length ps1 = length ps" by (simp add: ps1_def)
  have ch: "\<And>i. i < length ps \<Longrightarrow> channel (ps1 ! i) = channel (ps ! i)"
    using j by (auto simp: ps1_def nth_list_update)
  from Cons.prems have "\<forall>e\<in>set es. playerId e < length ps1" by (simp add: len1)
  from Cons.IH [OF this] obtain ps' where
    h: "PitchBend_loop idx bend es ps1 = Inr ps'" "length ps' = length ps1"
       "\<forall>i<length ps1. ps' ! i =
                     (if (\<exists>e\<in>set es. playerId e = i) \<and> channel (ps1 ! i) = idx
                      then UpdatePitch ((ps1 ! i)\<lparr>pitchBend := bend\<rparr>) else ps1 ! i)"
    by blast
  have run: "PitchBend_loop idx bend (e # es) ps = PitchBend_loop idx bend es ps1"
    using j by (simp add: j_def ps1_def Let_def)
  have pt: "\<forall>i<length ps. ps' ! i =
                     (if (\<exists>e'\<in>set (e # es). playerId e' = i) \<and> channel (ps ! i) = idx
                      then UpdatePitch ((ps ! i)\<lparr>pitchBend := bend\<rparr>) else ps ! i)"
  proof (intro allI impI)
    fix i assume i: "i < length ps"
    have a: "ps' ! i = (if (\<exists>e\<in>set es. playerId e = i) \<and> channel (ps ! i) = idx
                      then UpdatePitch ((ps1 ! i)\<lparr>pitchBend := bend\<rparr>) else ps1 ! i)"
      using h(3) i ch [OF i] by (simp add: len1)
    show "ps' ! i =
                     (if (\<exists>e'\<in>set (e # es). playerId e' = i) \<and> channel (ps ! i) = idx
                      then UpdatePitch ((ps ! i)\<lparr>pitchBend := bend\<rparr>) else ps ! i)"
    proof (cases "i = j")
      case True
      then show ?thesis using a i
        by (auto simp: ps1_def j_def UpdatePitch_bend_absorb)
    next
      case False
      then have "ps1 ! i = ps ! i" by (simp add: ps1_def)
      then show ?thesis using a False by (auto simp: j_def)
    qed
  qed
  show ?case
    using run h(1,2) pt by (auto simp: len1)
qed

lemma Channel_PitchBend_alive:
  assumes "\<forall>e\<in>set (playingNotes c). playerId e < length pool"
      and "bd = real_of_int (sint b) * 12 / 8192"
  shows "\<exists>pool'. Channel_PitchBend idx b (c, Some pool) = Inr (c\<lparr>pitchBend_ch := bd\<rparr>, Some pool')
               \<and> length pool' = length pool
               \<and> (\<forall>i<length pool. pool' ! i =
                     (if (\<exists>e\<in>set (playingNotes c). playerId e = i) \<and> channel (pool ! i) = idx
                      then UpdatePitch ((pool ! i)\<lparr>pitchBend := bd\<rparr>)
                      else pool ! i))"
proof -
  from PitchBend_loop_spec [OF assms(1), of idx bd]
  obtain ps' where
    h: "PitchBend_loop idx bd (playingNotes c) pool = Inr ps'"
       "length ps' = length pool"
       "\<forall>i<length pool. ps' ! i =
                     (if (\<exists>e\<in>set (playingNotes c). playerId e = i) \<and> channel (pool ! i) = idx
                      then UpdatePitch ((pool ! i)\<lparr>pitchBend := bd\<rparr>)
                      else pool ! i)"
    by blast
  have "Channel_PitchBend idx b (c, Some pool) = Inr (c\<lparr>pitchBend_ch := bd\<rparr>, Some ps')"
    unfolding Channel_PitchBend_def assms(2) [symmetric] by (simp add: Let_def h(1))
  then show ?thesis using h(2,3) by blast
qed

text \<open>
  Claim C7, as amended. On a channel with a live sampler, PitchBend(x) followed by
  PitchBend(0) leaves the same channel and voices as PitchBend(0) alone, and every voice
  that an entry of the channel's \<open>playingNotes\<close> refers to, whose \<open>channel\<close> field is
  this channel and whose sample is present, has \<open>pitch = 2^((noteNo - root) / 12)\<close>.
\<close>

theorem PitchBend_round_trip:
  assumes "\<forall>e\<in>set (playingNotes c). playerId e < length pool"
  shows "\<exists>c1 pool1 c2 pool2.
           Channel_PitchBend idx x (c, Some pool) = Inr (c1, Some pool1)
           \<and> Channel_PitchBend idx 0 (c1, Some pool1) = Inr (c2, Some pool2)
           \<and> Channel_PitchBend idx 0 (c, Some pool) = Inr (c2, Some pool2)
           \<and> (\<forall>e\<in>set (playingNotes c). \<forall>s.
                 channel (pool ! playerId e) = idx \<and> sample (pool ! playerId e) = Some s
                 \<longrightarrow> pitch (pool2 ! playerId e)
                       = 2 powr (real_of_int (uint (noteNo (pool ! playerId e)) - uint (root s)) / 12))"
proof -
  define bx where "bx = real_of_int (sint x) * 12 / 8192"
  define c1 where "c1 = c\<lparr>pitchBend_ch := bx\<rparr>"
  define c2 where "c2 = c\<lparr>pitchBend_ch := 0\<rparr>"
  from Channel_PitchBend_alive [OF assms bx_def, of idx] obtain pool1 where
    p1: "Channel_PitchBend idx x (c, Some pool) = Inr (c1, Some pool1)"
        "length pool1 = length pool"
        "\<forall>i<length pool. pool1 ! i =
             (if (\<exists>e\<in>set (playingNotes c). playerId e = i) \<and> channel (pool ! i) = idx
              then UpdatePitch ((pool ! i)\<lparr>pitchBend := bx\<rparr>) else pool ! i)"
    unfolding c1_def by blast
  have a1: "\<forall>e\<in>set (playingNotes c1). playerId e < length pool1"
    using assms p1(2) by (simp add: c1_def)
  have z: "(0::real) = real_of_int (sint (0::i16)) * 12 / 8192" by simp
  from Channel_PitchBend_alive [OF a1 z, of idx] obtain pool2 where
    p2: "Channel_PitchBend idx 0 (c1, Some pool1) = Inr (c2, Some pool2)"
        "length pool2 = length pool1"
        "\<forall>i<length pool1. pool2 ! i =
             (if (\<exists>e\<in>set (playingNotes c1). playerId e = i) \<and> channel (pool1 ! i) = idx
              then UpdatePitch ((pool1 ! i)\<lparr>pitchBend := 0\<rparr>) else pool1 ! i)"
    by (auto simp: c1_def c2_def)
  from Channel_PitchBend_alive [OF assms z, of idx] obtain pool0 where
    p0: "Channel_PitchBend idx 0 (c, Some pool) = Inr (c2, Some pool0)"
        "length pool0 = length pool"
        "\<forall>i<length pool. pool0 ! i =
             (if (\<exists>e\<in>set (playingNotes c). playerId e = i) \<and> channel (pool ! i) = idx
              then UpdatePitch ((pool ! i)\<lparr>pitchBend := 0\<rparr>) else pool ! i)"
    by (auto simp: c2_def)
  have pt2: "\<And>i. i < length pool \<Longrightarrow> pool2 ! i =
             (if (\<exists>e\<in>set (playingNotes c). playerId e = i) \<and> channel (pool ! i) = idx
              then UpdatePitch ((pool ! i)\<lparr>pitchBend := 0\<rparr>) else pool ! i)"
  proof -
    fix i assume i: "i < length pool"
    show "pool2 ! i =
             (if (\<exists>e\<in>set (playingNotes c). playerId e = i) \<and> channel (pool ! i) = idx
              then UpdatePitch ((pool ! i)\<lparr>pitchBend := 0\<rparr>) else pool ! i)"
      using p1(3) p2(3) i p1(2)
      by (auto simp: c1_def UpdatePitch_bend_absorb)
  qed
  have eq: "pool2 = pool0"
  proof (rule nth_equalityI)
    show "length pool2 = length pool0" by (simp add: p0(2) p1(2) p2(2))
  next
    fix i assume "i < length pool2"
    then have i: "i < length pool" by (simp add: p1(2) p2(2))
    show "pool2 ! i = pool0 ! i" using pt2 [OF i] p0(3) i by simp
  qed
  have formula: "\<forall>e\<in>set (playingNotes c). \<forall>s.
                 channel (pool ! playerId e) = idx \<and> sample (pool ! playerId e) = Some s
                 \<longrightarrow> pitch (pool2 ! playerId e)
                       = 2 powr (real_of_int (uint (noteNo (pool ! playerId e)) - uint (root s)) / 12)"
  proof (intro ballI allI impI)
    fix e s
    assume e: "e \<in> set (playingNotes c)"
       and h: "channel (pool ! playerId e) = idx \<and> sample (pool ! playerId e) = Some s"
    have i: "playerId e < length pool" using assms e by simp
    have "pool2 ! playerId e = UpdatePitch ((pool ! playerId e)\<lparr>pitchBend := 0\<rparr>)"
      using pt2 [OF i] e h by auto
    then show "pitch (pool2 ! playerId e)
                 = 2 powr (real_of_int (uint (noteNo (pool ! playerId e)) - uint (root s)) / 12)"
      using h by (simp add: UpdatePitch_def Let_def)
  qed
  show ?thesis
    using p1(1) p2(1) p0(1) eq formula by blast
qed

text \<open>
  The claim as stated, for every sounding voice of the channel, fails: a voice that is
  still playing after its NoteOff has lost its entry in \<open>playingNotes\<close>, so neither
  PitchBend reaches it and it keeps the pitch of the bend it started with (here 1, where
  the unbent pitch of note 72 on a sample of root 60 is 2).
\<close>

theorem PitchBend_round_trip_counterexample:
  "Channel_PitchBend 0 4096 (ex_bent, Some [ex_released])
     = Inr (ex_bent\<lparr>pitchBend_ch := 6\<rparr>, Some [ex_released])
   \<and> Channel_PitchBend 0 0 (ex_bent\<lparr>pitchBend_ch := 6\<rparr>, Some [ex_released])
     = Inr (ex_bent\<lparr>pitchBend_ch := 0\<rparr>, Some [ex_released])
   \<and> playing ex_released \<and> gain ex_released = 1/2 \<and> channel ex_released = 0
   \<and> sample ex_released = Some ex_oneshot
   \<and> pitch ex_released
       \<noteq> 2 powr (real_of_int (uint (noteNo ex_released) - uint (root ex_oneshot)) / 12)"
  by (simp add: Channel_PitchBend_def ex_bent_def ex_released_def ex_oneshot_def ex_sample_def)

text \<open>
  The state of the counterexample is what PitchBend(-8192), NoteOn(72) and NoteOff(72)
  leave behind on an idle pool (with the constructor as the spec describes it).
\<close>

lemma ex_released_reachable:
  "Channel_PitchBend 0 (-8192) (ex_bent\<lparr>pitchBend_ch := 0\<rparr>, Some [ex_idle])
       = Inr (ex_bent, Some [ex_idle])
   \<and> Channel_NoteOn (SamplePlayer_new 9) ex_velocityTable 0 72 2 (ex_bent, Some [ex_idle])
       = Inr (ex_bent\<lparr>playingNotes := [\<lparr>noteNo_pn = 72, playerId = 0\<rparr>]\<rparr>,
              Some [ex_released\<lparr>released := False\<rparr>])
   \<and> Channel_NoteOff 0 72 0 (ex_bent\<lparr>playingNotes := [\<lparr>noteNo_pn = 72, playerId = 0\<rparr>]\<rparr>,
                              Some [ex_released\<lparr>released := False\<rparr>])
       = Inr (ex_bent, Some [ex_released])"
  by (simp add: Channel_PitchBend_def Channel_NoteOn_def Channel_NoteOff_def find_player.simps
        ex_bent_def ex_idle_def ex_released_def ex_velocityTable_def
        GetAppropriateSample_def ex_oneshot_timbre_def SamplePlayer_new_def UpdatePitch_def
        ex_oneshot_def ex_sample_def)

theorem PitchBend_round_trip_witness:
  "Channel_PitchBend 0 4096 (ex_held, Some ex_pool)
     = Inr (ex_held\<lparr>pitchBend_ch := 6\<rparr>,
            Some [ex_player\<lparr>pitchBend := 6, pitch := 2 powr (3 / 2)\<rparr>,
                  ex_player\<lparr>noteNo := 60, pitchBend := 6, pitch := 2 powr (1 / 2)\<rparr>,
                  ex_player\<lparr>channel := 1\<rparr>])
   \<and> Channel_PitchBend 0 0 (ex_held\<lparr>pitchBend_ch := 6\<rparr>,
            Some [ex_player\<lparr>pitchBend := 6, pitch := 2 powr (3 / 2)\<rparr>,
                  ex_player\<lparr>noteNo := 60, pitchBend := 6, pitch := 2 powr (1 / 2)\<rparr>,
                  ex_player\<lparr>channel := 1\<rparr>])
     = Inr (ex_held, Some [ex_player, ex_player\<lparr>noteNo := 60, pitch := 1\<rparr>, ex_player\<lparr>channel := 1\<rparr>])"
proof -
  have h: "\<forall>e\<in>set (playingNotes ex_held). playerId e < length ex_pool"
    by (simp add: ex_held_def ex_pool_def)
  show ?thesis
    using PitchBend_round_trip [OF h, of 0 4096]
    by (simp add: Channel_PitchBend_def ex_held_def ex_pool_def ex_player_def ex_channel_def
          UpdatePitch_def ex_sample_def)
qed

section \<open>Entries of playingNotes\<close>

lemma NoteOff_loop_kept:
  "NoteOff_loop idx n es ps = Inr (kept, ps') \<Longrightarrow> kept = filter (\<lambda>e. noteNo_pn e \<noteq> n) es"
proof (induction es arbitrary: ps kept ps')
  case Nil
  then show ?case by simp
next
  case (Cons e es)
  show ?case
  proof (cases "noteNo_pn e = n")
    case True
    with Cons.prems have "\<exists>ps1. NoteOff_loop idx n es ps1 = Inr (kept, ps')"
      by (auto simp: Let_def split: if_splits)
    then show ?thesis using Cons.IH True by auto
  next
    case False
    with Cons.prems obtain kept0 where
      "NoteOff_loop idx n es ps = Inr (kept0, ps')" "kept = e # kept0"
      by (auto split: sum.splits)
    then show ?thesis using Cons.IH False by auto
  qed
qed

lemma Channel_NoteOn_completed:
  assumes "Channel_NoteOn new velocityTable idx n v (c, Some pool) = Inr (c', lock')"
  shows "\<exists>k<length pool. \<exists>t. timbre c = Some t
           \<and> c' = c\<lparr>playingNotes := playingNotes c @ [\<lparr>noteNo_pn = n, playerId = k\<rparr>]\<rparr>
           \<and> lock' = Some (pool[k := new (GetAppropriateSample t n v) n (velocityTable ! unat v)
                                         (pitchBend_ch c) idx])"
  using assms
  by (auto simp: Channel_NoteOn_def Let_def split: option.splits if_splits)

lemma Channel_NoteOff_completed:
  assumes "Channel_NoteOff idx n v (c, Some pool) = Inr (c', lock')"
  shows "c' = c\<lparr>playingNotes := filter (\<lambda>e. noteNo_pn e \<noteq> n) (playingNotes c)\<rparr>"
  using assms
  by (auto simp: Channel_NoteOff_def split: sum.splits dest: NoteOff_loop_kept)

lemma Channel_PitchBend_completed:
  assumes "Channel_PitchBend idx b (c, Some pool) = Inr (c', lock')"
  shows "playingNotes c' = playingNotes c"
  using assms
  by (auto simp: Channel_PitchBend_def Let_def split: sum.splits)

lemma dispatch_keeps_entry:
  assumes "dispatch new velocityTable S m = Inr S'"
      and "e \<in> set (playingNotes (channels S ! ch))"
      and "\<not> (status m = NOTE_OFF \<and> unat (channel_msg m) = ch \<and> noteNo_msg m = noteNo_pn e)"
  shows "e \<in> set (playingNotes (channels S' ! ch)) \<and> length (channels S') = length (channels S)"
proof -
  define cm where "cm = unat (channel_msg m)"
  have cml: "cm < length (channels S)"
    using assms(1) by (auto simp: dispatch_def Let_def cm_def split: if_splits)
  show ?thesis
  proof (cases "status m")
    case NOTE_ON
    with assms(1) cml obtain c' lock' where
      r: "Channel_NoteOn new velocityTable (channel_msg m) (noteNo_msg m) (velocity m)
            (channels S ! cm, Some (players S)) = Inr (c', lock')"
      and S': "channels S' = (channels S)[cm := c']"
      by (auto simp: dispatch_def Let_def cm_def split: sum.splits)
    from Channel_NoteOn_completed [OF r]
    have "set (playingNotes (channels S ! cm)) \<subseteq> set (playingNotes c')" by auto
    then show ?thesis using assms(2) S' cml by (cases "ch = cm") auto
  next
    case NOTE_OFF
    with assms(1) cml obtain c' lock' where
      r: "Channel_NoteOff (channel_msg m) (noteNo_msg m) (velocity m)
            (channels S ! cm, Some (players S)) = Inr (c', lock')"
      and S': "channels S' = (channels S)[cm := c']"
      by (auto simp: dispatch_def Let_def cm_def split: sum.splits)
    from Channel_NoteOff_completed [OF r]
    have k: "playingNotes c' = filter (\<lambda>e. noteNo_pn e \<noteq> noteNo_msg m) (playingNotes (channels S ! cm))"
      by simp
    show ?thesis
    proof (cases "ch = cm")
      case True
      then have "noteNo_msg m \<noteq> noteNo_pn e" using assms(3) NOTE_OFF by (simp add: cm_def)
      then show ?thesis using assms(2) S' cml True k by auto
    next
      case False
      then show ?thesis using assms(2) S' by simp
    qed
  next
    case PITCH_BEND
    with assms(1) cml obtain c' lock' where
      r: "Channel_PitchBend (channel_msg m) (pitchBend_msg m)
            (channels S ! cm, Some (players S)) = Inr (c', lock')"
      and S': "channels S' = (channels S)[cm := c']"
      by (auto simp: dispatch_def Let_def cm_def split: sum.splits)
    from Channel_PitchBend_completed [OF r]
    show ?thesis using assms(2) S' cml by (cases "ch = cm") auto
  qed
qed

lemma drain_keeps_entry:
  assumes "drain new velocityTable ms S = Inr S'"
      and "e \<in> set (playingNotes (channels S ! ch))"
      and "\<forall>m\<in>set ms. \<not> (status m = NOTE_OFF \<and> unat (channel_msg m) = ch \<and> noteNo_msg m = noteNo_pn e)"
  shows "e \<in> set (playingNotes (channels S' ! ch))"
  using assms
proof (induction ms arbitrary: S)
  case Nil
  then show ?case by simp
next
  case (Cons m ms)
  from Cons.prems(1) obtain S1 where
    d: "dispatch new velocityTable (S\<lparr>messageQueue := ms\<rparr>) m = Inr S1"
    and r: "drain new velocityTable ms S1 = Inr S'"
    by (auto split: sum.splits)
  have "e \<in> set (playingNotes (channels (S\<lparr>messageQueue := ms\<rparr>) ! ch))"
    using Cons.prems(2) by simp
  from dispatch_keeps_entry [OF d this] Cons.prems(3)
  have "e \<in> set (playingNotes (channels S1 ! ch))" by simp
  from Cons.IH [OF r this] Cons.prems(3) show ?case by simp
qed

text \<open>
  Claim C10. A NoteOn that completes on a live sampler appends exactly one entry
  \<open>(noteNo, k)\<close> to the channel's \<open>playingNotes\<close>, whatever sample the timbre gave
  (none included), and \<open>k\<close> is the voice it has just constructed. An entry of a channel
  is still there after a whole \<open>Process\<close> (the queue drained, the voices mixed) unless
  the queue held a NoteOff of the entry's note for that channel: NoteOn, PitchBend, a
  NoteOff of another note or on another channel and the mixing pass never remove it.
\<close>

theorem playingNotes_entries:
  "(Channel_NoteOn new velocityTable idx n v (c, Some pool) = Inr (c', lock')
      \<longrightarrow> (\<exists>k<length pool. \<exists>t. timbre c = Some t
             \<and> c' = c\<lparr>playingNotes := playingNotes c @ [\<lparr>noteNo_pn = n, playerId = k\<rparr>]\<rparr>
             \<and> lock' = Some (pool[k := new (GetAppropriateSample t n v) n (velocityTable ! unat v)
                                           (pitchBend_ch c) idx])))
   \<and> (Process rnd new velocityTable N A S = Inr (S', d_buf)
        \<and> e \<in> set (playingNotes (channels S ! ch))
        \<and> (\<forall>m\<in>set (messageQueue S).
              \<not> (status m = NOTE_OFF \<and> unat (channel_msg m) = ch \<and> noteNo_msg m = noteNo_pn e))
      \<longrightarrow> e \<in> set (playingNotes (channels S' ! ch)))"
proof (intro conjI impI)
  assume "Channel_NoteOn new velocityTable idx n v (c, Some pool) = Inr (c', lock')"
  from Channel_NoteOn_completed [OF this]
  show "\<exists>k<length pool. \<exists>t. timbre c = Some t
             \<and> c' = c\<lparr>playingNotes := playingNotes c @ [\<lparr>noteNo_pn = n, playerId = k\<rparr>]\<rparr>
             \<and> lock' = Some (pool[k := new (GetAppropriateSample t n v) n (velocityTable ! unat v)
                                           (pitchBend_ch c) idx])" .
next
  assume a: "Process rnd new velocityTable N A S = Inr (S', d_buf)
        \<and> e \<in> set (playingNotes (channels S ! ch))
        \<and> (\<forall>m\<in>set (messageQueue S).
              \<not> (status m = NOTE_OFF \<and> unat (channel_msg m) = ch \<and> noteNo_msg m = noteNo_pn e))"
  then obtain S1 where d: "drain new velocityTable (messageQueue S) S = Inr S1"
    and c: "channels S' = channels S1"
    by (auto simp: Process_def split: sum.splits)
  from drain_keeps_entry [OF d] a show "e \<in> set (playingNotes (channels S' ! ch))"
    by (simp add: c)
qed

lemma ex_dropped_eq:
  "ex_dropped = \<lparr>sample = None, noteNo = 10, volume = 1/2, pitchBend = 0, channel = 0,
        createdAt = 9, pos = 0, pos_f = 0, playing = False, released = False, gain = 0,
        pitch = 1, adsrState = Attack\<rparr>"
  by (simp add: ex_dropped_def SamplePlayer_new_def UpdatePitch_def)

lemma GetAppropriateSample_ex_none: "GetAppropriateSample ex_narrow_timbre 10 2 = None"
  by (simp add: GetAppropriateSample_def ex_narrow_timbre_def)

lemma replicate_4: "replicate 4 x = [x, x, x, x]"
  by (simp add: numeral_eq_Suc)

lemma Process_ex:
  "Process ex_rnd (SamplePlayer_new 9) ex_velocityTable 4 2 ex_Sampler
     = Inr (\<lparr>channels = [ex_narrow\<lparr>pitchBend_ch := 6, playingNotes :=
                 [\<lparr>noteNo_pn = 10, playerId = 0\<rparr>, \<lparr>noteNo_pn = 10, playerId = 0\<rparr>]\<rparr>],
              players = [ex_dropped\<lparr>pitchBend := 6\<rparr>], masterVolume = 1, messageQueue = []\<rparr>,
            [0, 0, 0, 0])"
  by (simp add: Process_def ex_Sampler_def dispatch_def Channel_PitchBend_def Channel_NoteOn_def
        Channel_NoteOff_def ex_narrow_def ex_dropped_eq UpdatePitch_def find_player.simps
        GetAppropriateSample_ex_none ex_velocityTable_def Process_voice_def SamplePlayer_new_def
        replicate_4)

theorem playingNotes_entries_witness:
  "Channel_NoteOn (SamplePlayer_new 9) ex_velocityTable 0 10 2 (ex_narrow, Some [ex_idle])
     = Inr (ex_narrow\<lparr>playingNotes := [\<lparr>noteNo_pn = 10, playerId = 0\<rparr>]\<rparr>, Some [ex_dropped])
   \<and> playing ex_dropped = False
   \<and> Process ex_rnd (SamplePlayer_new 9) ex_velocityTable 4 2 ex_Sampler
     = Inr (\<lparr>channels = [ex_narrow\<lparr>pitchBend_ch := 6, playingNotes :=
                 [\<lparr>noteNo_pn = 10, playerId = 0\<rparr>, \<lparr>noteNo_pn = 10, playerId = 0\<rparr>]\<rparr>],
              players = [ex_dropped\<lparr>pitchBend := 6\<rparr>], masterVolume = 1, messageQueue = []\<rparr>,
            [0, 0, 0, 0])
   \<and> \<lparr>noteNo_pn = 10, playerId = 0\<rparr> \<in> set (playingNotes (channels ex_Sampler ! 0))
   \<and> \<lparr>noteNo_pn = 10, playerId = 0\<rparr>
       \<in> set (playingNotes ([ex_narrow\<lparr>pitchBend_ch := 6, playingNotes :=
                 [\<lparr>noteNo_pn = 10, playerId = 0\<rparr>, \<lparr>noteNo_pn = 10, playerId = 0\<rparr>]\<rparr>] ! 0))"
proof -
  have on: "Channel_NoteOn (SamplePlayer_new 9) ex_velocityTable 0 10 2 (ex_narrow, Some [ex_idle])
     = Inr (ex_narrow\<lparr>playingNotes := [\<lparr>noteNo_pn = 10, playerId = 0\<rparr>]\<rparr>, Some [ex_dropped])"
    by (simp add: Channel_NoteOn_def ex_narrow_def find_player.simps ex_idle_def
          GetAppropriateSample_ex_none ex_velocityTable_def ex_dropped_def)
  have q: "\<forall>m\<in>set (messageQueue ex_Sampler).
              \<not> (status m = NOTE_OFF \<and> unat (channel_msg m) = 0
                  \<and> noteNo_msg m = noteNo_pn \<lparr>noteNo_pn = 10, playerId = 0\<rparr>)"
    by (simp add: ex_Sampler_def)
  have e: "\<lparr>noteNo_pn = 10, playerId = 0\<rparr> \<in> set (playingNotes (channels ex_Sampler ! 0))"
    by (simp add: ex_Sampler_def)
  show ?thesis
    using playingNotes_entries [of "SamplePlayer_new 9" ex_velocityTable 0 10 2 ex_narrow "[ex_idle]"
            "ex_narrow\<lparr>playingNotes := [\<lparr>noteNo_pn = 10, playerId = 0\<rparr>]\<rparr>" "Some [ex_dropped]"
            ex_rnd 4 2 ex_Sampler
            "\<lparr>channels = [ex_narrow\<lparr>pitchBend_ch := 6, playingNotes :=
                 [\<lparr>noteNo_pn = 10, playerId = 0\<rparr>, \<lparr>noteNo_pn = 10, playerId = 0\<rparr>]\<rparr>],
              players = [ex_dropped\<lparr>pitchBend := 6\<rparr>], masterVolume = 1, messageQueue = []\<rparr>"
            "[0, 0, 0, 0]" "\<lparr>noteNo_pn = 10, playerId = 0\<rparr>" 0]
          on q e Process_ex
    by (simp add: ex_dropped_eq)
qed

section \<open>NoteOn without a timbre or without a matching sample\<close>

text \<open>
  Claim C8 at a channel whose timbre pointer is null (no SetTimbre yet): NoteOn calls
  \<^verbatim>\<open>timbre->GetAppropriateSample\<close> (lines 104 and 117) with no check, a null
  dereference.
\<close>

theorem NoteOn_without_timbre:
  "Channel_NoteOn (SamplePlayer_new 9) ex_velocityTable 0 64 2
     (ex_channel\<lparr>timbre := None\<rparr>, Some [ex_idle]) = Inl NullPointer"
  by (simp add: Channel_NoteOn_def ex_channel_def ex_velocityTable_def)

text \<open>
  With a timbre that has no sample for the note, the note is dropped as the claim says,
  for the constructor as the spec describes it: the chosen voice has no sample and is
  not playing.
\<close>

lemma NoteOn_no_match:
  assumes "timbre c = Some t" and "GetAppropriateSample t n v = None"
      and "unat v < length velocityTable" and "pool \<noteq> []"
  shows "\<exists>k<length pool.
           Channel_NoteOn (SamplePlayer_new tick) velocityTable idx n v (c, Some pool)
             = Inr (c\<lparr>playingNotes := playingNotes c @ [\<lparr>noteNo_pn = n, playerId = k\<rparr>]\<rparr>,
                    Some (pool[k := SamplePlayer_new tick None n (velocityTable ! unat v) (pitchBend_ch c) idx]))
           \<and> playing (SamplePlayer_new tick None n (velocityTable ! unat v) (pitchBend_ch c) idx) = False
           \<and> sample (SamplePlayer_new tick None n (velocityTable ! unat v) (pitchBend_ch c) idx) = None"
  using Channel_NoteOn_alive [OF assms(1,3,4), of "SamplePlayer_new tick" idx n]
        find_player_in_pool [OF assms(4)] assms(2)
  by (auto simp: SamplePlayer_new_def UpdatePitch_def)

section \<open>The resampling kernel\<close>

lemma binary_rounding_ex_rnd: "binary_rounding ex_rnd"
  by (simp add: binary_rounding_def ex_rnd_def)

lemma binary_rounding_nonneg:
  assumes "binary_rounding rnd" and "0 \<le> x"
  shows "0 \<le> rnd x"
proof -
  from assms(1) have z: "rnd 0 = 0" and m: "\<forall>x y. x \<le> y \<longrightarrow> rnd x \<le> rnd y"
    by (simp_all add: binary_rounding_def)
  from m assms(2) have "rnd 0 \<le> rnd x" by blast
  then show ?thesis by (simp add: z)
qed

lemma binary_rounding_frac:
  assumes "binary_rounding rnd" and "0 \<le> y" and "rnd y < 2 ^ 32"
  shows "rnd (rnd y - rnd (real (nat \<lfloor>rnd y\<rfloor>))) = rnd y - of_int \<lfloor>rnd y\<rfloor>"
proof -
  define x where "x = rnd y"
  have x0: "0 \<le> x" using binary_rounding_nonneg [OF assms(1,2)] by (simp add: x_def)
  have xr: "rnd x = x" using assms(1) by (simp add: x_def binary_rounding_def)
  have xl: "x < 2 ^ 32" using assms(3) by (simp add: x_def)
  from assms(1) have "\<forall>x. 0 \<le> x \<and> x < 2 ^ 32 \<and> rnd x = x \<longrightarrow>
            rnd (of_int \<lfloor>x\<rfloor>) = of_int \<lfloor>x\<rfloor> \<and> rnd (x - of_int \<lfloor>x\<rfloor>) = x - of_int \<lfloor>x\<rfloor>"
    by (simp add: binary_rounding_def)
  then have fr: "rnd (of_int \<lfloor>x\<rfloor>) = of_int \<lfloor>x\<rfloor>" "rnd (x - of_int \<lfloor>x\<rfloor>) = x - of_int \<lfloor>x\<rfloor>"
    using x0 xl xr by blast+
  have "0 \<le> \<lfloor>x\<rfloor>" using x0 by simp
  then have "real (nat \<lfloor>x\<rfloor>) = of_int \<lfloor>x\<rfloor>" by simp
  then have "rnd (x - rnd (real (nat \<lfloor>x\<rfloor>))) = x - of_int \<lfloor>x\<rfloor>" using fr by simp
  then show ?thesis by (simp add: x_def)
qed

lemma float_to_u32_nonneg:
  assumes "0 \<le> x" and "float_to_u32 x = Some w"
  shows "unat w = nat \<lfloor>x\<rfloor>"
proof -
  from assms(2) have lt: "x < 2 ^ 32" and w: "w = word_of_int \<lfloor>x\<rfloor>"
    using assms(1) by (auto simp: float_to_u32_def split: if_splits)
  have f0: "0 \<le> \<lfloor>x\<rfloor>" using assms(1) by simp
  have "\<lfloor>x\<rfloor> < 2 ^ 32" using lt by (simp add: floor_less_iff)
  then have "take_bit 32 \<lfloor>x\<rfloor> = \<lfloor>x\<rfloor>" using f0 by (simp add: take_bit_int_eq_self)
  then show ?thesis by (simp add: w unat_eq_nat_uint uint_word_of_int_eq)
qed

lemma phase_advance_frac:
  assumes "binary_rounding rnd" and "0 \<le> posf" and "0 \<le> ptch" and "rnd (posf + ptch) < 2 ^ 32"
  shows "0 \<le> snd (phase_advance rnd ptch (s, posf)) \<and> snd (phase_advance rnd ptch (s, posf)) < 1"
proof -
  have y: "0 \<le> posf + ptch" using assms(2,3) by simp
  have "snd (phase_advance rnd ptch (s, posf))
          = rnd (posf + ptch) - of_int \<lfloor>rnd (posf + ptch)\<rfloor>"
    using binary_rounding_frac [OF assms(1) y assms(4)] by (simp add: phase_advance_def Let_def)
  then show ?thesis by simp linarith
qed

lemma kernel_body_Inr:
  assumes "binary_rounding rnd"
      and "kernel_body rnd pcm g ptch (d_buf, s, d, posf) = Inr st'" and "0 \<le> posf" and "0 \<le> ptch"
  shows "st' = (d_buf[d := rnd (d_buf ! d + rnd (interpolate rnd pcm (s, posf) * g))],
                fst (phase_advance rnd ptch (s, posf)), Suc d, snd (phase_advance rnd ptch (s, posf)))
         \<and> d < length d_buf \<and> s + 1 < length pcm \<and> rnd (posf + ptch) < 2 ^ 32"
proof -
  define x where "x = rnd (posf + ptch)"
  from assms(2) obtain w where
    b: "s + 1 < length pcm" "d < length d_buf" and w: "float_to_u32 x = Some w"
    and st: "st' = (d_buf[d := rnd (d_buf ! d + rnd (interpolate rnd pcm (s, posf) * g))],
                    s + unat w, Suc d, rnd (x - rnd (real (unat w))))"
    by (auto simp: kernel_body_def interpolate_def x_def Let_def split: if_splits option.splits)
  have "0 \<le> posf + ptch" using assms(3,4) by simp
  then have x0: "0 \<le> x" using binary_rounding_nonneg [OF assms(1)] by (simp add: x_def)
  from float_to_u32_nonneg [OF x0 w] have u: "unat w = nat \<lfloor>x\<rfloor>" .
  have xl: "x < 2 ^ 32" using w by (auto simp: float_to_u32_def split: if_splits)
  show ?thesis
    using b xl by (simp add: st u phase_advance_def Let_def x_def [symmetric])
qed

lemma u32_pred:
  fixes len :: u32
  assumes "unat len = Suc (Suc n)"
  shows "len - 1 \<noteq> 0 \<and> unat (len - 1) = Suc n"
proof -
  have "len \<noteq> 0" using assms by auto
  then have "unat (len - 1) = unat len - 1" by (rule unat_minus_one)
  then have "unat (len - 1) = Suc n" using assms by simp
  then show ?thesis by auto
qed

lemma u32_one:
  fixes len :: u32
  assumes "unat len = Suc 0"
  shows "len - 1 = 0"
proof -
  have "unat len = unat (1::u32)" using assms by simp
  then have "len = 1" by (simp only: word_unat_eq_iff)
  then show ?thesis by simp
qed

lemma kernel_loop_Inr:
  assumes "binary_rounding rnd" and "unat len = Suc n" and "0 \<le> posf" and "0 \<le> ptch"
      and "kernel_loop rnd pcm g ptch (d_buf, s, d, posf) len = Inr (d_buf', s', d', posf')"
  shows "(s', posf') = (phase_advance rnd ptch ^^ Suc n) (s, posf)
         \<and> d' = d + Suc n \<and> length d_buf' = length d_buf \<and> d + Suc n \<le> length d_buf
         \<and> (\<forall>i<length d_buf. d_buf' ! i =
               (if d \<le> i \<and> i < d + Suc n
                then rnd (d_buf ! i
                          + rnd (interpolate rnd pcm ((phase_advance rnd ptch ^^ (i - d)) (s, posf)) * g))
                else d_buf ! i))
         \<and> 0 \<le> posf' \<and> posf' < 1"
  using assms(2-5)
proof (induction n arbitrary: len d_buf s d posf)
  case 0
  from "0.prems"(1) have z: "len - 1 = 0" by (rule u32_one)
  have "kernel_loop rnd pcm g ptch (d_buf, s, d, posf) len
          = (case kernel_body rnd pcm g ptch (d_buf, s, d, posf) of
               Inl err \<Rightarrow> Inl err
             | Inr st' \<Rightarrow> if len - 1 \<noteq> 0 then kernel_loop rnd pcm g ptch st' (len - 1) else Inr st')"
    by (rule kernel_loop.simps)
  with "0.prems"(4) have b: "kernel_body rnd pcm g ptch (d_buf, s, d, posf) = Inr (d_buf', s', d', posf')"
    by (auto simp: z split: sum.splits)
  note kb = kernel_body_Inr [OF assms(1) b "0.prems"(2,3)]
  from kb have r: "rnd (posf + ptch) < 2 ^ 32" by simp
  from kb phase_advance_frac [OF assms(1) "0.prems"(2,3) r, of s]
  show ?case by (auto simp: nth_list_update)
next
  case (Suc n)
  from u32_pred [OF Suc.prems(1)] have nz: "len - 1 \<noteq> 0" and un: "unat (len - 1) = Suc n" by auto
  have "kernel_loop rnd pcm g ptch (d_buf, s, d, posf) len
          = (case kernel_body rnd pcm g ptch (d_buf, s, d, posf) of
               Inl err \<Rightarrow> Inl err
             | Inr st' \<Rightarrow> if len - 1 \<noteq> 0 then kernel_loop rnd pcm g ptch st' (len - 1) else Inr st')"
    by (rule kernel_loop.simps)
  with Suc.prems(4) obtain st1 where
    b: "kernel_body rnd pcm g ptch (d_buf, s, d, posf) = Inr st1"
    and r: "kernel_loop rnd pcm g ptch st1 (len - 1) = Inr (d_buf', s', d', posf')"
    using nz by (auto split: sum.splits)
  define d_buf1 where "d_buf1 = d_buf[d := rnd (d_buf ! d + rnd (interpolate rnd pcm (s, posf) * g))]"
  define s1 where "s1 = fst (phase_advance rnd ptch (s, posf))"
  define posf1 where "posf1 = snd (phase_advance rnd ptch (s, posf))"
  note kb = kernel_body_Inr [OF assms(1) b Suc.prems(2,3)]
  from kb have st1: "st1 = (d_buf1, s1, Suc d, posf1)" and dl: "d < length d_buf"
    and rr: "rnd (posf + ptch) < 2 ^ 32"
    by (simp_all add: d_buf1_def s1_def posf1_def)
  have p1: "0 \<le> posf1"
    using phase_advance_frac [OF assms(1) Suc.prems(2,3) rr, of s] by (simp add: posf1_def)
  have ph: "(s1, posf1) = phase_advance rnd ptch (s, posf)" by (simp add: s1_def posf1_def)
  from Suc.IH [OF un p1 Suc.prems(3) r [unfolded st1]]
  have IH: "(s', posf') = (phase_advance rnd ptch ^^ Suc n) (s1, posf1)"
           "d' = Suc d + Suc n" "length d_buf' = length d_buf1" "Suc d + Suc n \<le> length d_buf1"
           "\<forall>i<length d_buf1. d_buf' ! i =
               (if Suc d \<le> i \<and> i < Suc d + Suc n
                then rnd (d_buf1 ! i
                          + rnd (interpolate rnd pcm ((phase_advance rnd ptch ^^ (i - Suc d)) (s1, posf1)) * g))
                else d_buf1 ! i)"
           "0 \<le> posf'" "posf' < 1"
    by simp_all
  have len1: "length d_buf1 = length d_buf" by (simp add: d_buf1_def)
  have shift: "\<And>k. (phase_advance rnd ptch ^^ k) (s1, posf1) = (phase_advance rnd ptch ^^ Suc k) (s, posf)"
    by (simp add: ph funpow_swap1)
  have pt: "\<forall>i<length d_buf. d_buf' ! i =
               (if d \<le> i \<and> i < d + Suc (Suc n)
                then rnd (d_buf ! i
                          + rnd (interpolate rnd pcm ((phase_advance rnd ptch ^^ (i - d)) (s, posf)) * g))
                else d_buf ! i)"
  proof (intro allI impI)
    fix i assume i: "i < length d_buf"
    consider "i < d" | "i = d" | "d < i" by linarith
    then show "d_buf' ! i =
               (if d \<le> i \<and> i < d + Suc (Suc n)
                then rnd (d_buf ! i
                          + rnd (interpolate rnd pcm ((phase_advance rnd ptch ^^ (i - d)) (s, posf)) * g))
                else d_buf ! i)"
    proof cases
      case 1
      then show ?thesis using IH(5) i by (simp add: len1 d_buf1_def)
    next
      case 2
      then show ?thesis using IH(5) i by (simp add: len1 d_buf1_def)
    next
      case 3
      then have "Suc (i - Suc d) = i - d" by simp
      then have "(phase_advance rnd ptch ^^ (i - Suc d)) (s1, posf1) = (phase_advance rnd ptch ^^ (i - d)) (s, posf)"
        using shift [of "i - Suc d"] by simp
      moreover have "d_buf1 ! i = d_buf ! i" using 3 by (simp add: d_buf1_def)
      ultimately show ?thesis using IH(5) i 3 by (simp add: len1)
    qed
  qed
  show ?case
    using IH(1-4,6,7) pt shift [of "Suc n"] by (simp add: len1)
qed

text \<open>
  The kernel completes when the reads and writes stay inside the arrays and the phase
  stays inside the range of the conversion to \<^verbatim>\<open>uint32_t\<close>.
\<close>

lemma kernel_body_completes:
  assumes "binary_rounding rnd" and "s + 1 < length pcm" and "d < length d_buf"
      and "0 \<le> posf" and "posf < 1" and "0 \<le> ptch" and "rnd (1 + ptch) < 2 ^ 32"
  shows "\<exists>st'. kernel_body rnd pcm g ptch (d_buf, s, d, posf) = Inr st'"
proof -
  have "0 \<le> posf + ptch" using assms(4,6) by simp
  then have lo: "0 \<le> rnd (posf + ptch)" by (rule binary_rounding_nonneg [OF assms(1)])
  have "posf + ptch \<le> 1 + ptch" using assms(5) by simp
  then have "rnd (posf + ptch) \<le> rnd (1 + ptch)" using assms(1) by (simp add: binary_rounding_def)
  then have hi: "rnd (posf + ptch) < 2 ^ 32" using assms(7) by simp
  have "float_to_u32 (rnd (posf + ptch)) \<noteq> None" using lo hi by (simp add: float_to_u32_def)
  then show ?thesis
    using assms(2,3) by (auto simp: kernel_body_def Let_def)
qed

lemma kernel_loop_completes:
  assumes "binary_rounding rnd"
      and "unat len = Suc n" and "0 \<le> posf" and "posf < 1" and "0 \<le> ptch" and "rnd (1 + ptch) < 2 ^ 32"
      and "d + Suc n \<le> length d_buf"
      and "\<forall>k\<le>n. fst ((phase_advance rnd ptch ^^ k) (s, posf)) + 1 < length pcm"
  shows "\<exists>r. kernel_loop rnd pcm g ptch (d_buf, s, d, posf) len = Inr r"
  using assms(2-8)
proof (induction n arbitrary: len d_buf s d posf)
  case 0
  from "0.prems"(1) have z: "len - 1 = 0" by (rule u32_one)
  have s0: "s + 1 < length pcm" using "0.prems"(7) by simp
  have d0: "d < length d_buf" using "0.prems"(6) by simp
  from kernel_body_completes [OF assms(1) s0 d0 "0.prems"(2-5)] obtain st' where
    "kernel_body rnd pcm g ptch (d_buf, s, d, posf) = Inr st'" by blast
  then have "kernel_loop rnd pcm g ptch (d_buf, s, d, posf) len = Inr st'"
    by (subst kernel_loop.simps) (simp add: z)
  then show ?case by blast
next
  case (Suc n)
  from u32_pred [OF Suc.prems(1)] have nz: "len - 1 \<noteq> 0" and un: "unat (len - 1) = Suc n" by auto
  have s0: "s + 1 < length pcm" using Suc.prems(7) by (metis funpow_0 fst_conv le0)
  have d0: "d < length d_buf" using Suc.prems(6) by simp
  from kernel_body_completes [OF assms(1) s0 d0 Suc.prems(2-5)] obtain st1 where
    b: "kernel_body rnd pcm g ptch (d_buf, s, d, posf) = Inr st1" by blast
  define d_buf1 where "d_buf1 = d_buf[d := rnd (d_buf ! d + rnd (interpolate rnd pcm (s, posf) * g))]"
  define s1 where "s1 = fst (phase_advance rnd ptch (s, posf))"
  define posf1 where "posf1 = snd (phase_advance rnd ptch (s, posf))"
  note kb = kernel_body_Inr [OF assms(1) b Suc.prems(2,4)]
  from kb have st1: "st1 = (d_buf1, s1, Suc d, posf1)" and rr: "rnd (posf + ptch) < 2 ^ 32"
    by (simp_all add: d_buf1_def s1_def posf1_def)
  have p1: "0 \<le> posf1" "posf1 < 1"
    using phase_advance_frac [OF assms(1) Suc.prems(2,4) rr, of s] by (simp_all add: posf1_def)
  have ph: "(s1, posf1) = phase_advance rnd ptch (s, posf)" by (simp add: s1_def posf1_def)
  have dl: "Suc d + Suc n \<le> length d_buf1" using Suc.prems(6) by (simp add: d_buf1_def)
  have rd: "\<forall>k\<le>n. fst ((phase_advance rnd ptch ^^ k) (s1, posf1)) + 1 < length pcm"
  proof (intro allI impI)
    fix k assume "k \<le> n"
    then have "fst ((phase_advance rnd ptch ^^ Suc k) (s, posf)) + 1 < length pcm"
      using Suc.prems(7) by (meson Suc_le_mono)
    then show "fst ((phase_advance rnd ptch ^^ k) (s1, posf1)) + 1 < length pcm"
      by (simp add: ph funpow_swap1)
  qed
  from Suc.IH [OF un p1 Suc.prems(4,5) dl rd] obtain r where
    "kernel_loop rnd pcm g ptch (d_buf1, s1, Suc d, posf1) (len - 1) = Inr r" by blast
  then have "kernel_loop rnd pcm g ptch (d_buf, s, d, posf) len = Inr r"
    using nz by (subst kernel_loop.simps) (simp add: b st1)
  then show ?case by blast
qed

text \<open>
  Claim C4. A call of the kernel with \<open>length \<ge> 1\<close>, \<open>pitch \<ge> 0\<close> and
  \<open>0 \<le> pos_f < 1\<close>, whose reads and writes stay inside the arrays and whose pitch stays
  inside the range of the conversion to \<^verbatim>\<open>uint32_t\<close>, returns, and: output sample
  \<open>k\<close> adds \<open>val * gain\<close> to \<open>dst[k]\<close>, where \<open>val = src[0] + (src[1] - src[0]) * pos_f\<close>
  at the phase reached after \<open>k\<close> advances (\<open>pos_f += pitch; intval = floor(pos_f);
  pos_f -= intval; src += intval\<close>), every operation in binary32; nothing else of the
  mix bus changes; the work record holds the phase after \<open>length\<close> advances, with
  \<open>pos_f\<close> in \<open>[0, 1)\<close>, and its gain and pitch are unchanged.
\<close>

theorem kernel_per_sample:
  assumes "binary_rounding rnd"
      and "1 \<le> unat len" and "0 \<le> pitch_w w" and "0 \<le> pos_f_w w" and "pos_f_w w < 1"
      and "rnd (1 + pitch_w w) < 2 ^ 32"
      and "dst w + unat len \<le> length d_buf"
      and "\<forall>k<unat len. fst ((phase_advance rnd (pitch_w w) ^^ k) (src w, pos_f_w w)) + 1 < length pcm"
  shows "\<exists>d_buf' w'.
           sampler_process_inner rnd pcm d_buf w len = Inr (d_buf', w')
           \<and> (src w', pos_f_w w') = (phase_advance rnd (pitch_w w) ^^ unat len) (src w, pos_f_w w)
           \<and> dst w' = dst w + unat len
           \<and> gain_w w' = gain_w w \<and> pitch_w w' = pitch_w w
           \<and> 0 \<le> pos_f_w w' \<and> pos_f_w w' < 1
           \<and> length d_buf' = length d_buf
           \<and> (\<forall>k<unat len.
                 d_buf' ! (dst w + k)
                   = rnd (d_buf ! (dst w + k)
                          + rnd (interpolate rnd pcm ((phase_advance rnd (pitch_w w) ^^ k) (src w, pos_f_w w))
                                 * gain_w w)))
           \<and> (\<forall>i<length d_buf. \<not> (dst w \<le> i \<and> i < dst w + unat len) \<longrightarrow> d_buf' ! i = d_buf ! i)"
proof -
  from assms(2) obtain n where n: "unat len = Suc n" by (cases "unat len") auto
  have rd: "\<forall>k\<le>n. fst ((phase_advance rnd (pitch_w w) ^^ k) (src w, pos_f_w w)) + 1 < length pcm"
    using assms(8) n by (simp add: less_Suc_eq_le)
  have dl: "dst w + Suc n \<le> length d_buf" using assms(7) n by simp
  from kernel_loop_completes [OF assms(1) n assms(4,5,3,6) dl rd] obtain r where
    "kernel_loop rnd pcm (gain_w w) (pitch_w w) (d_buf, src w, dst w, pos_f_w w) len = Inr r" by blast
  then obtain d_buf' s' d' posf' where
    r: "kernel_loop rnd pcm (gain_w w) (pitch_w w) (d_buf, src w, dst w, pos_f_w w) len
          = Inr (d_buf', s', d', posf')"
    by (cases r) auto
  define w' where "w' = w\<lparr>src := s', dst := d', pos_f_w := posf'\<rparr>"
  have run: "sampler_process_inner rnd pcm d_buf w len = Inr (d_buf', w')"
    by (simp add: sampler_process_inner_def r w'_def)
  from kernel_loop_Inr [OF assms(1) n assms(4,3) r]
  have h: "(s', posf') = (phase_advance rnd (pitch_w w) ^^ Suc n) (src w, pos_f_w w)"
          "d' = dst w + Suc n" "length d_buf' = length d_buf"
          "\<forall>i<length d_buf. d_buf' ! i =
               (if dst w \<le> i \<and> i < dst w + Suc n
                then rnd (d_buf ! i
                          + rnd (interpolate rnd pcm ((phase_advance rnd (pitch_w w) ^^ (i - dst w)) (src w, pos_f_w w))
                                 * gain_w w))
                else d_buf ! i)"
          "0 \<le> posf'" "posf' < 1"
    by simp_all
  have a: "\<forall>k<unat len.
                 d_buf' ! (dst w + k)
                   = rnd (d_buf ! (dst w + k)
                          + rnd (interpolate rnd pcm ((phase_advance rnd (pitch_w w) ^^ k) (src w, pos_f_w w))
                                 * gain_w w))"
  proof (intro allI impI)
    fix k assume k: "k < unat len"
    then have i: "dst w + k < length d_buf" using dl n by simp
    show "d_buf' ! (dst w + k)
                   = rnd (d_buf ! (dst w + k)
                          + rnd (interpolate rnd pcm ((phase_advance rnd (pitch_w w) ^^ k) (src w, pos_f_w w))
                                 * gain_w w))"
      using h(4) i k n by simp
  qed
  have b: "\<forall>i<length d_buf. \<not> (dst w \<le> i \<and> i < dst w + unat len) \<longrightarrow> d_buf' ! i = d_buf ! i"
    using h(4) n by simp
  have c: "(src w', pos_f_w w') = (phase_advance rnd (pitch_w w) ^^ unat len) (src w, pos_f_w w)"
    using h(1) by (simp add: w'_def n)
  have d: "dst w' = dst w + unat len \<and> gain_w w' = gain_w w \<and> pitch_w w' = pitch_w w
           \<and> 0 \<le> pos_f_w w' \<and> pos_f_w w' < 1"
    using h(2,5,6) by (simp add: w'_def n)
  show ?thesis
    using run c d h(3) a b by blast
qed

lemma float_to_u32_three_halves: "float_to_u32 (3/2) = Some 1"
  by (simp add: float_to_u32_def)

lemma float_to_u32_two: "float_to_u32 2 = Some 2"
  by (simp add: float_to_u32_def)

lemma kernel_ex:
  "sampler_process_inner ex_rnd [0, 8, 16, 8, 0] [0, 0]
     \<lparr>src = 0, dst = 0, pos_f_w = 0, gain_w = 1, pitch_w = 3/2\<rparr> 2
   = Inr ([0, 12], \<lparr>src = 3, dst = 2, pos_f_w = 0, gain_w = 1, pitch_w = 3/2\<rparr>)"
  by (simp add: sampler_process_inner_def kernel_loop.simps kernel_body_def ex_rnd_def
        float_to_u32_three_halves float_to_u32_two Let_def)

lemma phase_advance_ex:
  "phase_advance ex_rnd (3/2) (0, 0) = (Suc 0, 1/2)"
  "phase_advance ex_rnd (3/2) (Suc 0, 1/2) = (3, 0)"
  by (simp_all add: phase_advance_def ex_rnd_def Let_def)

text \<open>
  A run in which the rounding decides where the kernel reads next: with
  \<open>pos_f = 1 - 2^-24\<close> and \<open>pitch = 3 / 2^26\<close> the exact sum \<open>1 - 2^-26\<close> is below 1,
  and its binary32 value is 1, so \<open>src\<close> advances by one sample and \<open>pos_f\<close> is 0.
\<close>

lemma ex_round_grid: "ex_round n (of_int k / 2 ^ n) = of_int k / 2 ^ n"
proof -
  have "\<lfloor>of_int k + (1/2 :: real)\<rfloor> = k" by linarith
  then show ?thesis by (simp add: ex_round_def)
qed

lemma binary_rounding_ex_round: "binary_rounding (ex_round n)"
proof -
  have z: "ex_round n 0 = 0" by (simp add: ex_round_def)
  have m: "\<forall>x y. x \<le> y \<longrightarrow> ex_round n x \<le> ex_round n y"
  proof (intro allI impI)
    fix x y :: real assume "x \<le> y"
    then have "x * 2 ^ n + 1/2 \<le> y * 2 ^ n + 1/2" by simp
    then have "\<lfloor>x * 2 ^ n + 1/2\<rfloor> \<le> \<lfloor>y * 2 ^ n + 1/2\<rfloor>" by (rule floor_mono)
    then show "ex_round n x \<le> ex_round n y" by (simp add: ex_round_def divide_right_mono)
  qed
  have i: "\<forall>x. ex_round n (ex_round n x) = ex_round n x"
  proof
    fix x
    show "ex_round n (ex_round n x) = ex_round n x"
      using ex_round_grid [of n "\<lfloor>x * 2 ^ n + 1/2\<rfloor>"] by (simp add: ex_round_def)
  qed
  have f: "\<forall>x. 0 \<le> x \<and> x < 2 ^ 32 \<and> ex_round n x = x \<longrightarrow>
            ex_round n (of_int \<lfloor>x\<rfloor>) = of_int \<lfloor>x\<rfloor>
            \<and> ex_round n (x - of_int \<lfloor>x\<rfloor>) = x - of_int \<lfloor>x\<rfloor>"
  proof (intro allI impI)
    fix x assume a: "0 \<le> x \<and> x < 2 ^ 32 \<and> ex_round n x = x"
    define k where "k = \<lfloor>x * 2 ^ n + 1/2\<rfloor>"
    have x: "x = of_int k / 2 ^ n" using a by (simp add: ex_round_def k_def)
    have "of_int \<lfloor>x\<rfloor> = (of_int (\<lfloor>x\<rfloor> * 2 ^ n) :: real) / 2 ^ n" by simp
    then have a1: "ex_round n (of_int \<lfloor>x\<rfloor>) = of_int \<lfloor>x\<rfloor>"
      using ex_round_grid [of n "\<lfloor>x\<rfloor> * 2 ^ n"] by simp
    have "x - of_int \<lfloor>x\<rfloor> = (of_int (k - \<lfloor>x\<rfloor> * 2 ^ n) :: real) / 2 ^ n"
      by (simp add: x diff_divide_distrib)
    then have a2: "ex_round n (x - of_int \<lfloor>x\<rfloor>) = x - of_int \<lfloor>x\<rfloor>"
      using ex_round_grid [of n "k - \<lfloor>x\<rfloor> * 2 ^ n"] by simp
    show "ex_round n (of_int \<lfloor>x\<rfloor>) = of_int \<lfloor>x\<rfloor>
            \<and> ex_round n (x - of_int \<lfloor>x\<rfloor>) = x - of_int \<lfloor>x\<rfloor>"
      using a1 a2 by simp
  qed
  show ?thesis using z m i f by (simp add: binary_rounding_def)
qed

lemma kernel_ex_rounding:
  "sampler_process_inner (ex_round 24) [0, 8, 0] [0]
     \<lparr>src = 0, dst = 0, pos_f_w = 1 - 1 / 2 ^ 24, gain_w = 1, pitch_w = 3 / 2 ^ 26\<rparr> 1
   = Inr ([8 - 1 / 2 ^ 21],
          \<lparr>src = 1, dst = 1, pos_f_w = 0, gain_w = 1, pitch_w = 3 / 2 ^ 26\<rparr>)"
  by (simp add: sampler_process_inner_def kernel_loop.simps kernel_body_def ex_round_def
        float_to_u32_def Let_def)

lemma phase_advance_ex_rounding:
  "phase_advance (ex_round 24) (3 / 2 ^ 26) (0, 1 - 1 / 2 ^ 24) = (Suc 0, 0)"
  by (simp add: phase_advance_def ex_round_def Let_def)

theorem kernel_per_sample_witness:
  "sampler_process_inner ex_rnd [0, 8, 16, 8, 0] [0, 0]
     \<lparr>src = 0, dst = 0, pos_f_w = 0, gain_w = 1, pitch_w = 3/2\<rparr> 2
   = Inr ([0, 12], \<lparr>src = 3, dst = 2, pos_f_w = 0, gain_w = 1, pitch_w = 3/2\<rparr>)
   \<and> (3, 0) = (phase_advance ex_rnd (3/2) ^^ 2) (0, 0)
   \<and> [0, 12] ! 1 = ex_rnd ([0, 0] ! 1
                            + ex_rnd (interpolate ex_rnd [0, 8, 16, 8, 0] ((phase_advance ex_rnd (3/2) ^^ 1) (0, 0)) * 1))
   \<and> sampler_process_inner (ex_round 24) [0, 8, 0] [0]
        \<lparr>src = 0, dst = 0, pos_f_w = 1 - 1 / 2 ^ 24, gain_w = 1, pitch_w = 3 / 2 ^ 26\<rparr> 1
      = Inr ([8 - 1 / 2 ^ 21],
             \<lparr>src = 1, dst = 1, pos_f_w = 0, gain_w = 1, pitch_w = 3 / 2 ^ 26\<rparr>)
   \<and> (1, 0) = (phase_advance (ex_round 24) (3 / 2 ^ 26) ^^ 1) (0, 1 - 1 / 2 ^ 24)"
proof -
  define w :: sampler_process_inner_work_t
    where "w = \<lparr>src = 0, dst = 0, pos_f_w = 0, gain_w = 1, pitch_w = 3/2\<rparr>"
  have a: "1 \<le> unat (2::u32)" by simp
  have b: "0 \<le> pitch_w w" by (simp add: w_def)
  have c: "0 \<le> pos_f_w w" by (simp add: w_def)
  have d: "pos_f_w w < 1" by (simp add: w_def)
  have r: "ex_rnd (1 + pitch_w w) < 2 ^ 32" by (simp add: w_def ex_rnd_def)
  have dl: "dst w + unat (2::u32) \<le> length [0::real, 0]" by (simp add: w_def)
  have rd: "\<forall>k<unat (2::u32).
              fst ((phase_advance ex_rnd (pitch_w w) ^^ k) (src w, pos_f_w w)) + 1
                < length [0::i16, 8, 16, 8, 0]"
  proof (intro allI impI)
    fix k assume "k < unat (2::u32)"
    then have "k = 0 \<or> k = 1" by auto
    then show "fst ((phase_advance ex_rnd (pitch_w w) ^^ k) (src w, pos_f_w w)) + 1
                < length [0::i16, 8, 16, 8, 0]"
      by (auto simp: w_def phase_advance_ex)
  qed
  note t = kernel_per_sample [OF binary_rounding_ex_rnd a b c d r dl rd]
  have e: "(phase_advance ex_rnd (3/2) ^^ 2) (0, 0) = (3, 0)"
    by (simp add: numeral_2_eq_2 phase_advance_ex)
  have f: "interpolate ex_rnd [0, 8, 16, 8, 0] (phase_advance ex_rnd (3/2) (0, 0)) = 12"
    by (simp add: phase_advance_ex interpolate_def ex_rnd_def)
  have g: "sampler_process_inner ex_rnd [0, 8, 16, 8, 0] [0, 0]
     \<lparr>src = 0, dst = 0, pos_f_w = 0, gain_w = 1, pitch_w = 3/2\<rparr> 2
   = Inr ([0, 12], \<lparr>src = 3, dst = 2, pos_f_w = 0, gain_w = 1, pitch_w = 3/2\<rparr>)"
    using t by (simp add: w_def kernel_ex)
  define v :: sampler_process_inner_work_t
    where "v = \<lparr>src = 0, dst = 0, pos_f_w = 1 - 1 / 2 ^ 24, gain_w = 1, pitch_w = 3 / 2 ^ 26\<rparr>"
  have a': "1 \<le> unat (1::u32)" by simp
  have b': "0 \<le> pitch_w v" by (simp add: v_def)
  have c': "0 \<le> pos_f_w v" by (simp add: v_def)
  have d': "pos_f_w v < 1" by (simp add: v_def)
  have r': "ex_round 24 (1 + pitch_w v) < 2 ^ 32" by (simp add: v_def ex_round_def)
  have dl': "dst v + unat (1::u32) \<le> length [0::real]" by (simp add: v_def)
  have rd': "\<forall>k<unat (1::u32).
              fst ((phase_advance (ex_round 24) (pitch_w v) ^^ k) (src v, pos_f_w v)) + 1
                < length [0::i16, 8, 0]"
    by (simp add: v_def)
  note t' = kernel_per_sample [OF binary_rounding_ex_round a' b' c' d' r' dl' rd']
  from t' obtain d' w' where
    h: "sampler_process_inner (ex_round 24) [0, 8, 0] [0] v 1 = Inr (d', w')"
       "(src w', pos_f_w w')
          = (phase_advance (ex_round 24) (pitch_w v) ^^ unat (1::u32)) (src v, pos_f_w v)"
    by blast
  have k': "sampler_process_inner (ex_round 24) [0, 8, 0] [0] v 1
      = Inr ([8 - 1 / 2 ^ 21],
             \<lparr>src = 1, dst = 1, pos_f_w = 0, gain_w = 1, pitch_w = 3 / 2 ^ 26\<rparr>)"
    unfolding v_def by (rule kernel_ex_rounding)
  from h(1) k' have w': "w' = \<lparr>src = 1, dst = 1, pos_f_w = 0, gain_w = 1, pitch_w = 3 / 2 ^ 26\<rparr>"
    by simp
  have g': "sampler_process_inner (ex_round 24) [0, 8, 0] [0]
        \<lparr>src = 0, dst = 0, pos_f_w = 1 - 1 / 2 ^ 24, gain_w = 1, pitch_w = 3 / 2 ^ 26\<rparr> 1
      = Inr ([8 - 1 / 2 ^ 21],
             \<lparr>src = 1, dst = 1, pos_f_w = 0, gain_w = 1, pitch_w = 3 / 2 ^ 26\<rparr>)"
    by (rule kernel_ex_rounding)
  have e': "(1, 0) = (phase_advance (ex_round 24) (3 / 2 ^ 26) ^^ 1) (0, 1 - 1 / 2 ^ 24)"
    using h(2) unfolding w' v_def by simp
  have i: "[0, 12] ! 1 = ex_rnd ([0, 0] ! 1
                            + ex_rnd (interpolate ex_rnd [0, 8, 16, 8, 0] ((phase_advance ex_rnd (3/2) ^^ 1) (0, 0)) * 1))"
    using f by (simp add: ex_rnd_def)
  show ?thesis
    using g e [symmetric] i g' e' by blast
qed

section \<open>Loop points and the end of the sample\<close>

lemma loop_back_wraps:
  fixes lStart lEnd ps :: u32
  assumes "lStart < lEnd" and "lEnd \<le> ps"
  shows "\<exists>ps' k. loop_back ps (lStart - lEnd) lEnd = Some ps'
           \<and> lStart \<le> ps' \<and> ps' < lEnd \<and> 1 \<le> k
           \<and> unat ps' + k * (unat lEnd - unat lStart) = unat ps"
  using assms(2)
proof (induction "unat ps" arbitrary: ps rule: less_induct)
  case less
  define q where "q = ps + (lStart - lEnd)"
  have se: "unat lStart < unat lEnd" using assms(1) by (simp add: word_less_nat_alt)
  have ep: "unat lEnd \<le> unat ps" using less.prems by (simp add: word_le_nat_alt)
  have q_alt: "q = ps - (lEnd - lStart)" by (simp add: q_def)
  have L: "unat (lEnd - lStart) = unat lEnd - unat lStart"
    using assms(1) by (simp add: unat_sub less_imp_le)
  have "lEnd - lStart \<le> ps"
    using L ep by (simp add: word_le_nat_alt)
  then have uq: "unat q = unat ps - (unat lEnd - unat lStart)"
    unfolding q_alt by (simp add: unat_sub L)
  have step: "loop_back ps (lStart - lEnd) lEnd
                = (if lEnd \<le> q then loop_back q (lStart - lEnd) lEnd else Some q)"
    by (subst loop_back.simps) (simp add: q_def Let_def)
  show ?case
  proof (cases "lEnd \<le> q")
    case True
    have "unat q < unat ps" using uq se ep by simp
    from less.hyps [OF this True] obtain ps' k where
      h: "loop_back q (lStart - lEnd) lEnd = Some ps'" "lStart \<le> ps'" "ps' < lEnd" "1 \<le> k"
         "unat ps' + k * (unat lEnd - unat lStart) = unat q"
      by blast
    have "unat ps' + Suc k * (unat lEnd - unat lStart) = unat ps"
      using h(5) uq se ep by simp
    then show ?thesis using step True h(1-3) by (intro exI [of _ ps'] exI [of _ "Suc k"]) simp
  next
    case False
    then have lt: "q < lEnd" by simp
    have "unat lStart \<le> unat q" using uq se ep by simp
    then have ge: "lStart \<le> q" by (simp add: word_le_nat_alt)
    have "unat q + 1 * (unat lEnd - unat lStart) = unat ps" using uq se ep by simp
    then show ?thesis using step False lt ge by (intro exI [of _ q] exI [of _ 1]) simp
  qed
qed

lemma loop_back_result:
  assumes "loop_back ps lBack lEnd = Some ps'"
  shows "ps' < lEnd"
  by (rule loop_back.raw_induct [where P = "\<lambda>ps lBack lEnd ps'. ps' < lEnd", OF _ assms])
     (auto simp: Let_def split: if_splits)

text \<open>
  Without a loop region the wrap need not end: with \<open>loopEnd = 0\<close> every position is
  at or past the loop end.
\<close>

lemma loop_back_needs_loopEnd:
  assumes "loop_back ps lBack lEnd = Some ps'"
  shows "lEnd \<noteq> 0"
  by (rule loop_back.raw_induct [where P = "\<lambda>ps lBack lEnd ps'. lEnd \<noteq> 0", OF _ assms])
     (auto simp: Let_def split: if_splits)

lemma loop_back_never_ends: "loop_back ps lBack 0 = None"
proof (cases "loop_back ps lBack 0")
  case None
  then show ?thesis .
next
  case (Some ps')
  from loop_back_needs_loopEnd [OF this] show ?thesis by simp
qed

lemma Process_step_after_kernel:
  assumes "sample p = Some s"
      and "p1 = (if adsrEnabled s then UpdateGain rnd p else p)"
      and "playing p1"
      and "sampler_process_inner rnd (sample_pcm s) d_buf
             \<lparr>src = unat (pos p1), dst = j * A, pos_f_w = pos_f p1,
              gain_w = rnd (gain p1 * rnd (mv * 65536)), pitch_w = pitch p1\<rparr> (word_of_nat A)
           = Inr (d_buf', work')"
      and "loop_point s = (lEnd, lBack)"
  shows "Process_step rnd mv A j (p, d_buf) =
           (if lEnd \<le> word_of_nat (src work')
            then (if lBack = 0 then Inr (Break (p1\<lparr>playing := False\<rparr>, d_buf'))
                  else (case loop_back (word_of_nat (src work')) lBack lEnd of
                          None \<Rightarrow> Inl NonTermination
                        | Some ps' \<Rightarrow> Inr (Continue (p1\<lparr>pos := ps', pos_f := pos_f_w work'\<rparr>, d_buf'))))
            else Inr (Continue (p1\<lparr>pos := word_of_nat (src work'), pos_f := pos_f_w work'\<rparr>, d_buf')))"
proof -
  have "Process_step rnd mv A j (p, d_buf) =
          (if playing p1 = False then Inr (Break (p1, d_buf))
           else (case sampler_process_inner rnd (sample_pcm s) d_buf
                        \<lparr>src = unat (pos p1), dst = j * A, pos_f_w = pos_f p1,
                         gain_w = rnd (gain p1 * rnd (mv * 65536)), pitch_w = pitch p1\<rparr> (word_of_nat A) of
                   Inl err \<Rightarrow> Inl err
                 | Inr (d_buf', work') \<Rightarrow>
                     (case loop_point s of (lEnd, lBack) \<Rightarrow>
                        (let ps = (word_of_nat (src work') :: u32)
                         in if ps \<ge> lEnd
                            then (if lBack = 0
                                  then Inr (Break (p1\<lparr>playing := False\<rparr>, d_buf'))
                                  else (case loop_back ps lBack lEnd of
                                          None \<Rightarrow> Inl NonTermination
                                        | Some ps' \<Rightarrow>
                                            Inr (Continue (p1\<lparr>pos := ps', pos_f := pos_f_w work'\<rparr>, d_buf'))))
                            else Inr (Continue (p1\<lparr>pos := ps, pos_f := pos_f_w work'\<rparr>, d_buf'))))))"
    unfolding Process_step_def assms(2) by (simp add: assms(1) Let_def)
  then show ?thesis
    using assms(3) by (simp add: assms(4,5) Let_def)
qed

text \<open>
  Claim C3, as amended. In an envelope step of the mixing pass, after the kernel has
  returned for a playing voice and the new position is at or past \<open>loopEnd\<close> (the
  sample's length and \<open>loopBack = 0\<close> without the envelope, the sample's \<open>loopEnd\<close> and
  \<open>loopBack = loopStart - loopEnd\<close> with it): with \<open>loopBack = 0\<close> the voice stops
  playing and the inner loop is left, so no further envelope step runs in this buffer;
  otherwise, when \<open>loopStart < loopEnd\<close>, the position is wrapped by adding \<open>loopBack\<close>
  until it is below \<open>loopEnd\<close>, after some \<open>k \<ge> 1\<close> rounds, as many as the overshoot
  needs, inside \<open>[loopStart, loopEnd)\<close>, and the voice keeps playing. For any other loop
  points with \<open>loopBack \<noteq> 0\<close> the step does what the wrap does: if the wrap returns, the
  position is below \<open>loopEnd\<close> and the voice keeps playing; if it does not, the step does
  not return.
\<close>

theorem Process_step_loop_point:
  assumes "sample p = Some s"
      and "p1 = (if adsrEnabled s then UpdateGain rnd p else p)"
      and "playing p1"
      and "sampler_process_inner rnd (sample_pcm s) d_buf
             \<lparr>src = unat (pos p1), dst = j * A, pos_f_w = pos_f p1,
              gain_w = rnd (gain p1 * rnd (mv * 65536)), pitch_w = pitch p1\<rparr> (word_of_nat A)
           = Inr (d_buf', work')"
      and "lEnd = (if adsrEnabled s then loopEnd s else length_smp s)"
      and "lBack = (if adsrEnabled s then loopStart s - loopEnd s else 0)"
      and "lEnd \<le> word_of_nat (src work')"
  shows "(lBack = 0 \<longrightarrow>
            Process_step rnd mv A j (p, d_buf) = Inr (Break (p1\<lparr>playing := False\<rparr>, d_buf'))
            \<and> Process_steps rnd mv A j (Suc m) (p, d_buf) = Inr (p1\<lparr>playing := False\<rparr>, d_buf'))
       \<and> (lBack \<noteq> 0 \<and> loopStart s < loopEnd s \<longrightarrow>
            (\<exists>ps' k. Process_step rnd mv A j (p, d_buf)
                        = Inr (Continue (p1\<lparr>pos := ps', pos_f := pos_f_w work'\<rparr>, d_buf'))
                \<and> playing (p1\<lparr>pos := ps', pos_f := pos_f_w work'\<rparr>)
                \<and> ps' < lEnd \<and> loopStart s \<le> ps' \<and> 1 \<le> k
                \<and> unat ps' + k * (unat (loopEnd s) - unat (loopStart s))
                    = unat (word_of_nat (src work') :: u32)))
       \<and> (lBack \<noteq> 0 \<longrightarrow>
            (\<forall>ps'. loop_back (word_of_nat (src work')) lBack lEnd = Some ps' \<longrightarrow>
               ps' < lEnd
               \<and> playing (p1\<lparr>pos := ps', pos_f := pos_f_w work'\<rparr>)
               \<and> Process_step rnd mv A j (p, d_buf)
                   = Inr (Continue (p1\<lparr>pos := ps', pos_f := pos_f_w work'\<rparr>, d_buf'))))
       \<and> (lBack \<noteq> 0 \<and> loop_back (word_of_nat (src work')) lBack lEnd = None \<longrightarrow>
            Process_step rnd mv A j (p, d_buf) = Inl NonTermination)"
proof (intro conjI impI allI)
  have lpt: "loop_point s = (lEnd, lBack)" by (simp add: loop_point_def assms(5,6))
  note eq = Process_step_after_kernel [OF assms(1-4) lpt]
  { assume z: "lBack = 0"
    show "Process_step rnd mv A j (p, d_buf) = Inr (Break (p1\<lparr>playing := False\<rparr>, d_buf'))"
      using eq z assms(7) by simp
    then show "Process_steps rnd mv A j (Suc m) (p, d_buf) = Inr (p1\<lparr>playing := False\<rparr>, d_buf')"
      by simp }
  { assume nz: "lBack \<noteq> 0 \<and> loopStart s < loopEnd s"
    then have lp: "lEnd = loopEnd s" "lBack = loopStart s - loopEnd s"
      using assms(5,6) by (auto split: if_splits)
    from nz have lt: "loopStart s < loopEnd s" by simp
    have ge: "loopEnd s \<le> word_of_nat (src work')" using assms(7) lp by simp
    from loop_back_wraps [OF lt ge] obtain ps' k where
      h: "loop_back (word_of_nat (src work')) (loopStart s - loopEnd s) (loopEnd s) = Some ps'"
         "loopStart s \<le> ps'" "ps' < loopEnd s" "1 \<le> k"
         "unat ps' + k * (unat (loopEnd s) - unat (loopStart s)) = unat (word_of_nat (src work') :: u32)"
      by blast
    have "Process_step rnd mv A j (p, d_buf)
            = Inr (Continue (p1\<lparr>pos := ps', pos_f := pos_f_w work'\<rparr>, d_buf'))"
      using eq nz assms(7) h(1) by (simp add: lp)
    then show "\<exists>ps' k. Process_step rnd mv A j (p, d_buf)
                        = Inr (Continue (p1\<lparr>pos := ps', pos_f := pos_f_w work'\<rparr>, d_buf'))
                \<and> playing (p1\<lparr>pos := ps', pos_f := pos_f_w work'\<rparr>)
                \<and> ps' < lEnd \<and> loopStart s \<le> ps' \<and> 1 \<le> k
                \<and> unat ps' + k * (unat (loopEnd s) - unat (loopStart s))
                    = unat (word_of_nat (src work') :: u32)"
      using h(2-5) assms(3) lp by (intro exI [of _ ps'] exI [of _ k]) simp }
  { fix ps'
    assume nz: "lBack \<noteq> 0" and r: "loop_back (word_of_nat (src work')) lBack lEnd = Some ps'"
    show "ps' < lEnd" using r by (rule loop_back_result)
    show "playing (p1\<lparr>pos := ps', pos_f := pos_f_w work'\<rparr>)" using assms(3) by simp
    show "Process_step rnd mv A j (p, d_buf)
            = Inr (Continue (p1\<lparr>pos := ps', pos_f := pos_f_w work'\<rparr>, d_buf'))"
      using eq nz assms(7) r by simp }
  { assume nz: "lBack \<noteq> 0 \<and> loop_back (word_of_nat (src work')) lBack lEnd = None"
    show "Process_step rnd mv A j (p, d_buf) = Inl NonTermination"
      using eq nz assms(7) by simp }
qed

lemma float_to_u32_three: "float_to_u32 3 = Some 3"
  by (simp add: float_to_u32_def)

lemma kernel_ex_fast:
  "sampler_process_inner ex_rnd [0, 8, 16, 8, 0] [0, 0]
     \<lparr>src = 0, dst = 0, pos_f_w = 0, gain_w = 65536, pitch_w = 3\<rparr> 2
   = Inr ([0, 524288], \<lparr>src = 6, dst = 2, pos_f_w = 0, gain_w = 65536, pitch_w = 3\<rparr>)"
  by (simp add: sampler_process_inner_def kernel_loop.simps kernel_body_def ex_rnd_def
        float_to_u32_three Let_def)

lemma loop_back_ex: "loop_back 6 (- 2) 3 = Some 2"
  by (simp add: loop_back.simps Let_def)

lemma Process_step_ex_fast:
  "Process_step ex_rnd 1 2 0 (ex_fast, [0, 0])
     = Inr (Continue (ex_fast\<lparr>pos := 2, pos_f := 0\<rparr>, [0, 524288]))"
proof -
  have g: "ex_rnd (gain ex_fast * ex_rnd (1 * 65536)) = 65536"
    by (simp add: ex_rnd_def ex_fast_def ex_player_def)
  show ?thesis
    using g by (simp add: Process_step_def ex_fast_def ex_player_def ex_sample_def UpdateGain_def
          kernel_ex_fast loop_point_def loop_back_ex Let_def)
qed

lemma Process_step_ex_fast_oneshot:
  "Process_step ex_rnd 1 2 0 (ex_fast_oneshot, [0, 0])
     = Inr (Break (ex_fast_oneshot\<lparr>playing := False\<rparr>, [0, 524288]))"
proof -
  have g: "ex_rnd (gain ex_fast_oneshot * ex_rnd (1 * 65536)) = 65536"
    by (simp add: ex_rnd_def ex_fast_oneshot_def ex_fast_def ex_player_def)
  show ?thesis
    using g by (simp add: Process_step_def ex_fast_oneshot_def ex_fast_def ex_player_def ex_oneshot_def
          ex_sample_def kernel_ex_fast loop_point_def Let_def)
qed

theorem Process_step_loop_point_witness:
  "Process_step ex_rnd 1 2 0 (ex_fast, [0, 0])
     = Inr (Continue (ex_fast\<lparr>pos := 2, pos_f := 0\<rparr>, [0, 524288]))
   \<and> playing (ex_fast\<lparr>pos := 2, pos_f := 0\<rparr>)
   \<and> (2::u32) < loopEnd ex_sample \<and> loopStart ex_sample \<le> 2
   \<and> unat (2::u32) + 2 * (unat (loopEnd ex_sample) - unat (loopStart ex_sample)) = unat (6::u32)
   \<and> Process_step ex_rnd 1 2 0 (ex_fast_oneshot, [0, 0])
     = Inr (Break (ex_fast_oneshot\<lparr>playing := False\<rparr>, [0, 524288]))
   \<and> Process_steps ex_rnd 1 2 0 (Suc 3) (ex_fast_oneshot, [0, 0])
     = Inr (ex_fast_oneshot\<lparr>playing := False\<rparr>, [0, 524288])
   \<and> Process_step ex_rnd 1 2 0 (ex_noloop, [0, 0]) = Inl NonTermination"
proof -
  have s1: "sample ex_fast = Some ex_sample" by (simp add: ex_fast_def ex_player_def)
  have p1: "ex_fast = (if adsrEnabled ex_sample then UpdateGain ex_rnd ex_fast else ex_fast)"
    by (simp add: ex_fast_def ex_player_def ex_sample_def UpdateGain_def)
  have pl: "playing ex_fast" by (simp add: ex_fast_def ex_player_def)
  have k1: "sampler_process_inner ex_rnd (sample_pcm ex_sample) [0, 0]
             \<lparr>src = unat (pos ex_fast), dst = 0 * 2, pos_f_w = pos_f ex_fast,
              gain_w = ex_rnd (gain ex_fast * ex_rnd (1 * 65536)), pitch_w = pitch ex_fast\<rparr> (word_of_nat 2)
           = Inr ([0, 524288], \<lparr>src = 6, dst = 2, pos_f_w = 0, gain_w = 65536, pitch_w = 3\<rparr>)"
    using kernel_ex_fast by (simp add: ex_fast_def ex_player_def ex_sample_def ex_rnd_def)
  have e1: "(3::u32) = (if adsrEnabled ex_sample then loopEnd ex_sample else length_smp ex_sample)"
    by (simp add: ex_sample_def)
  have b1: "(- 2::u32) = (if adsrEnabled ex_sample then loopStart ex_sample - loopEnd ex_sample else 0)"
    by (simp add: ex_sample_def)
  have g1: "(3::u32) \<le> word_of_nat (src \<lparr>src = 6, dst = 2, pos_f_w = 0, gain_w = 65536, pitch_w = 3\<rparr>)"
    by simp
  have s2: "sample ex_fast_oneshot = Some ex_oneshot"
    by (simp add: ex_fast_oneshot_def)
  have p2: "ex_fast_oneshot = (if adsrEnabled ex_oneshot then UpdateGain ex_rnd ex_fast_oneshot else ex_fast_oneshot)"
    by (simp add: ex_oneshot_def)
  have pl2: "playing ex_fast_oneshot" by (simp add: ex_fast_oneshot_def ex_fast_def ex_player_def)
  have k2: "sampler_process_inner ex_rnd (sample_pcm ex_oneshot) [0, 0]
             \<lparr>src = unat (pos ex_fast_oneshot), dst = 0 * 2, pos_f_w = pos_f ex_fast_oneshot,
              gain_w = ex_rnd (gain ex_fast_oneshot * ex_rnd (1 * 65536)), pitch_w = pitch ex_fast_oneshot\<rparr> (word_of_nat 2)
           = Inr ([0, 524288], \<lparr>src = 6, dst = 2, pos_f_w = 0, gain_w = 65536, pitch_w = 3\<rparr>)"
    using kernel_ex_fast
    by (simp add: ex_fast_oneshot_def ex_fast_def ex_player_def ex_oneshot_def ex_sample_def ex_rnd_def)
  have e2: "(4::u32) = (if adsrEnabled ex_oneshot then loopEnd ex_oneshot else length_smp ex_oneshot)"
    by (simp add: ex_oneshot_def ex_sample_def)
  have b2: "(0::u32) = (if adsrEnabled ex_oneshot then loopStart ex_oneshot - loopEnd ex_oneshot else 0)"
    by (simp add: ex_oneshot_def ex_sample_def)
  have g2: "(4::u32) \<le> word_of_nat (src \<lparr>src = 6, dst = 2, pos_f_w = 0, gain_w = 65536, pitch_w = 3\<rparr>)"
    by simp
  have s3: "sample ex_noloop = Some (ex_sample\<lparr>loopEnd := 0\<rparr>)" by (simp add: ex_noloop_def)
  have p3: "ex_noloop = (if adsrEnabled (ex_sample\<lparr>loopEnd := 0\<rparr>) then UpdateGain ex_rnd ex_noloop else ex_noloop)"
    by (simp add: ex_noloop_def ex_fast_def ex_player_def ex_sample_def UpdateGain_def)
  have pl3: "playing ex_noloop" by (simp add: ex_noloop_def ex_fast_def ex_player_def)
  have k3: "sampler_process_inner ex_rnd (sample_pcm (ex_sample\<lparr>loopEnd := 0\<rparr>)) [0, 0]
             \<lparr>src = unat (pos ex_noloop), dst = 0 * 2, pos_f_w = pos_f ex_noloop,
              gain_w = ex_rnd (gain ex_noloop * ex_rnd (1 * 65536)), pitch_w = pitch ex_noloop\<rparr> (word_of_nat 2)
           = Inr ([0, 524288], \<lparr>src = 6, dst = 2, pos_f_w = 0, gain_w = 65536, pitch_w = 3\<rparr>)"
    using kernel_ex_fast
    by (simp add: ex_noloop_def ex_fast_def ex_player_def ex_sample_def ex_rnd_def)
  have e3: "(0::u32) = (if adsrEnabled (ex_sample\<lparr>loopEnd := 0\<rparr>) then loopEnd (ex_sample\<lparr>loopEnd := 0\<rparr>)
                        else length_smp (ex_sample\<lparr>loopEnd := 0\<rparr>))"
    by (simp add: ex_sample_def)
  have b3: "(1::u32) = (if adsrEnabled (ex_sample\<lparr>loopEnd := 0\<rparr>)
                        then loopStart (ex_sample\<lparr>loopEnd := 0\<rparr>) - loopEnd (ex_sample\<lparr>loopEnd := 0\<rparr>) else 0)"
    by (simp add: ex_sample_def)
  have g3: "(0::u32) \<le> word_of_nat (src \<lparr>src = 6, dst = 2, pos_f_w = 0, gain_w = 65536, pitch_w = 3\<rparr>)"
    by simp
  have n3: "loop_back (word_of_nat (src \<lparr>src = 6, dst = 2, pos_f_w = 0, gain_w = 65536, pitch_w = 3\<rparr>)) 1 0 = None"
    by (rule loop_back_never_ends)
  note t1 = Process_step_loop_point [OF s1 p1 pl k1 e1 b1 g1, of 0]
  note t2 = Process_step_loop_point [OF s2 p2 pl2 k2 e2 b2 g2, of 3]
  note t3 = Process_step_loop_point [OF s3 p3 pl3 k3 e3 b3 g3, of 0]
  have a: "Process_step ex_rnd 1 2 0 (ex_fast_oneshot, [0, 0])
             = Inr (Break (ex_fast_oneshot\<lparr>playing := False\<rparr>, [0, 524288]))
           \<and> Process_steps ex_rnd 1 2 0 (Suc 3) (ex_fast_oneshot, [0, 0])
             = Inr (ex_fast_oneshot\<lparr>playing := False\<rparr>, [0, 524288])"
    using t2 [THEN conjunct1] by simp
  have b: "Process_step ex_rnd 1 2 0 (ex_noloop, [0, 0]) = Inl NonTermination"
    using t3 [THEN conjunct2, THEN conjunct2, THEN conjunct2] n3 by simp
  have c: "Process_step ex_rnd 1 2 0 (ex_fast, [0, 0])
             = Inr (Continue (ex_fast\<lparr>pos := 2, pos_f := 0\<rparr>, [0, 524288]))"
    using t1 [THEN conjunct2, THEN conjunct2, THEN conjunct1] loop_back_ex by simp
  show ?thesis
    using a b c by (simp add: ex_sample_def ex_fast_def ex_player_def)
qed

text \<open>
  The claim as stated, for every enveloped sample, fails on loop points that are not a
  region. The fast voice on the sample with \<open>loopStart = 1\<close> and \<open>loopEnd = 0\<close> is
  playing, the kernel returns with the position 6, which is at or past \<open>loopEnd\<close>, and
  \<open>loopBack = 1\<close> is not 0; no position is below \<open>loopEnd = 0\<close>, so the wrap of lines
  364-367 never ends and the step returns no voice, playing or not.
\<close>

theorem Process_step_loop_point_counterexample:
  "sample ex_noloop = Some (ex_sample\<lparr>loopEnd := 0\<rparr>)
   \<and> adsrEnabled (ex_sample\<lparr>loopEnd := 0\<rparr>) \<and> playing ex_noloop
   \<and> UpdateGain ex_rnd ex_noloop = ex_noloop
   \<and> sampler_process_inner ex_rnd (sample_pcm (ex_sample\<lparr>loopEnd := 0\<rparr>)) [0, 0]
        \<lparr>src = unat (pos ex_noloop), dst = 0, pos_f_w = pos_f ex_noloop,
         gain_w = ex_rnd (gain ex_noloop * ex_rnd (1 * 65536)), pitch_w = pitch ex_noloop\<rparr> 2
      = Inr ([0, 524288], \<lparr>src = 6, dst = 2, pos_f_w = 0, gain_w = 65536, pitch_w = 3\<rparr>)
   \<and> loop_point (ex_sample\<lparr>loopEnd := 0\<rparr>) = (0, 1)
   \<and> loop_back 6 1 0 = None
   \<and> Process_step ex_rnd 1 2 0 (ex_noloop, [0, 0]) = Inl NonTermination
   \<and> (\<nexists>r. Process_step ex_rnd 1 2 0 (ex_noloop, [0, 0]) = Inr r)"
proof -
  have g: "ex_rnd (gain ex_noloop * ex_rnd (1 * 65536)) = 65536"
    by (simp add: ex_rnd_def ex_noloop_def ex_fast_def ex_player_def)
  have u: "UpdateGain ex_rnd ex_noloop = ex_noloop"
    by (simp add: ex_noloop_def ex_fast_def ex_player_def ex_sample_def UpdateGain_def)
  have k: "sampler_process_inner ex_rnd (sample_pcm (ex_sample\<lparr>loopEnd := 0\<rparr>)) [0, 0]
        \<lparr>src = unat (pos ex_noloop), dst = 0, pos_f_w = pos_f ex_noloop,
         gain_w = ex_rnd (gain ex_noloop * ex_rnd (1 * 65536)), pitch_w = pitch ex_noloop\<rparr> 2
      = Inr ([0, 524288], \<lparr>src = 6, dst = 2, pos_f_w = 0, gain_w = 65536, pitch_w = 3\<rparr>)"
    using kernel_ex_fast by (simp add: ex_noloop_def ex_fast_def ex_player_def ex_sample_def ex_rnd_def)
  have l: "loop_point (ex_sample\<lparr>loopEnd := 0\<rparr>) = (0, 1)"
    by (simp add: loop_point_def ex_sample_def)
  have n: "loop_back 6 1 0 = None" by (rule loop_back_never_ends)
  have s: "sample ex_noloop = Some (ex_sample\<lparr>loopEnd := 0\<rparr>)" by (simp add: ex_noloop_def)
  have pl: "playing ex_noloop" by (simp add: ex_noloop_def ex_fast_def ex_player_def)
  have a: "adsrEnabled (ex_sample\<lparr>loopEnd := 0\<rparr>)" by (simp add: ex_sample_def)
  have st: "Process_step ex_rnd 1 2 0 (ex_noloop, [0, 0]) = Inl NonTermination"
    using k by (simp add: Process_step_def s a u pl l n Let_def)
  show ?thesis
    using s a pl u k l n st by simp
qed

section \<open>Voices without the envelope\<close>

lemma UpdatePitch_keeps [simp]:
  "gain (UpdatePitch p) = gain p" "volume (UpdatePitch p) = volume p"
  "playing (UpdatePitch p) = playing p"
  by (simp_all add: UpdatePitch_def Let_def split: option.splits)

lemma Process_step_oneshot:
  assumes "sample p = Some s" and "\<not> adsrEnabled s" and "playing p"
      and "Process_step rnd mv A j (p, d_buf) = Inr r"
  shows "\<exists>d_buf' work'.
           sampler_process_inner rnd (sample_pcm s) d_buf
             \<lparr>src = unat (pos p), dst = j * A, pos_f_w = pos_f p,
              gain_w = rnd (gain p * rnd (mv * 65536)), pitch_w = pitch p\<rparr> (word_of_nat A)
             = Inr (d_buf', work')
           \<and> r = (if length_smp s \<le> word_of_nat (src work')
                  then Break (p\<lparr>playing := False\<rparr>, d_buf')
                  else Continue (p\<lparr>pos := word_of_nat (src work'), pos_f := pos_f_w work'\<rparr>, d_buf'))"
proof -
  have p1: "p = (if adsrEnabled s then UpdateGain rnd p else p)" using assms(2) by simp
  have lp: "loop_point s = (length_smp s, 0)" using assms(2) by (simp add: loop_point_def)
  from assms(4) obtain d_buf' work' where
    k: "sampler_process_inner rnd (sample_pcm s) d_buf
             \<lparr>src = unat (pos p), dst = j * A, pos_f_w = pos_f p,
              gain_w = rnd (gain p * rnd (mv * 65536)), pitch_w = pitch p\<rparr> (word_of_nat A)
             = Inr (d_buf', work')"
    using assms(1-3)
    by (auto simp: Process_step_def Let_def split: sum.splits)
  from Process_step_after_kernel [OF assms(1) p1 assms(3) k lp] assms(4)
  have "r = (if length_smp s \<le> word_of_nat (src work')
                  then Break (p\<lparr>playing := False\<rparr>, d_buf')
                  else Continue (p\<lparr>pos := word_of_nat (src work'), pos_f := pos_f_w work'\<rparr>, d_buf'))"
    by (simp split: if_splits)
  with k show ?thesis by blast
qed

lemma voice_run_invariant:
  assumes "voice_run rnd s p" and "\<not> adsrEnabled s"
  shows "sample p = Some s \<and> gain p = volume p"
  using assms
proof (induction rule: voice_run.induct)
  case (allocated tick n vol bend ch)
  then show ?case by (simp add: SamplePlayer_new_def)
next
  case (bent p b)
  then show ?case by simp
next
  case (note_off p)
  then show ?case by simp
next
  case (mixed p mv A j d_buf p' d_buf')
  then have "sample p = Some s" "gain p = volume p" by simp_all
  from Process_step_oneshot [OF this(1) mixed.prems mixed.hyps(2,3)] this
  show ?case by (auto split: if_splits)
next
  case (stopped p mv A j d_buf p' d_buf')
  then have "sample p = Some s" "gain p = volume p" by simp_all
  from Process_step_oneshot [OF this(1) stopped.prems stopped.hyps(2,3)] this
  show ?case by (auto split: if_splits)
qed

text \<open>
  Claim C6. A voice on a sample with \<open>adsrEnabled = false\<close> has \<open>gain = volume\<close> in
  every state from its allocation on, through pitch bends, note-offs and envelope steps
  of the mixing pass; the envelope leaves it as it is; an envelope step that finds it
  playing leaves it playing unless the kernel has carried the position to the sample's
  length or past it, and only then turns \<open>playing\<close> off.
\<close>

theorem oneshot_gain_is_volume:
  assumes "voice_run rnd s p" and "\<not> adsrEnabled s"
  shows "sample p = Some s \<and> gain p = volume p \<and> UpdateGain rnd p = p
         \<and> (\<forall>mv A j d_buf p' d_buf'.
               playing p \<and> Process_step rnd mv A j (p, d_buf) = Inr (Continue (p', d_buf'))
               \<longrightarrow> playing p' \<and> gain p' = volume p')
         \<and> (\<forall>mv A j d_buf p' d_buf'.
               playing p \<and> Process_step rnd mv A j (p, d_buf) = Inr (Break (p', d_buf'))
               \<longrightarrow> p' = p\<lparr>playing := False\<rparr>
                   \<and> (\<exists>work'. sampler_process_inner rnd (sample_pcm s) d_buf
                                 \<lparr>src = unat (pos p), dst = j * A, pos_f_w = pos_f p,
                                  gain_w = rnd (gain p * rnd (mv * 65536)), pitch_w = pitch p\<rparr> (word_of_nat A)
                                 = Inr (d_buf', work')
                               \<and> length_smp s \<le> word_of_nat (src work')))"
proof -
  from voice_run_invariant [OF assms] have inv: "sample p = Some s" "gain p = volume p" by simp_all
  have ug: "UpdateGain rnd p = p" using inv assms(2) by (simp add: UpdateGain_def)
  have c: "\<forall>mv A j d_buf p' d_buf'.
               playing p \<and> Process_step rnd mv A j (p, d_buf) = Inr (Continue (p', d_buf'))
               \<longrightarrow> playing p' \<and> gain p' = volume p'"
  proof (intro allI impI)
    fix mv A j d_buf p' d_buf'
    assume a: "playing p \<and> Process_step rnd mv A j (p, d_buf) = Inr (Continue (p', d_buf'))"
    from Process_step_oneshot [OF inv(1) assms(2), of rnd mv A j d_buf "Continue (p', d_buf')"] a inv(2)
    show "playing p' \<and> gain p' = volume p'" by (auto split: if_splits)
  qed
  have b: "\<forall>mv A j d_buf p' d_buf'.
               playing p \<and> Process_step rnd mv A j (p, d_buf) = Inr (Break (p', d_buf'))
               \<longrightarrow> p' = p\<lparr>playing := False\<rparr>
                   \<and> (\<exists>work'. sampler_process_inner rnd (sample_pcm s) d_buf
                                 \<lparr>src = unat (pos p), dst = j * A, pos_f_w = pos_f p,
                                  gain_w = rnd (gain p * rnd (mv * 65536)), pitch_w = pitch p\<rparr> (word_of_nat A)
                                 = Inr (d_buf', work')
                               \<and> length_smp s \<le> word_of_nat (src work'))"
  proof (intro allI impI)
    fix mv A j d_buf p' d_buf'
    assume a: "playing p \<and> Process_step rnd mv A j (p, d_buf) = Inr (Break (p', d_buf'))"
    from Process_step_oneshot [OF inv(1) assms(2), of rnd mv A j d_buf "Break (p', d_buf')"] a
    show "p' = p\<lparr>playing := False\<rparr>
                   \<and> (\<exists>work'. sampler_process_inner rnd (sample_pcm s) d_buf
                                 \<lparr>src = unat (pos p), dst = j * A, pos_f_w = pos_f p,
                                  gain_w = rnd (gain p * rnd (mv * 65536)), pitch_w = pitch p\<rparr> (word_of_nat A)
                                 = Inr (d_buf', work')
                               \<and> length_smp s \<le> word_of_nat (src work'))"
      by (auto split: if_splits)
  qed
  show ?thesis using inv ug c b by blast
qed

lemma kernel_ex_oneshot:
  "sampler_process_inner ex_rnd [0, 8, 16, 8, 0] [0, 0]
     \<lparr>src = 0, dst = 0, pos_f_w = 0, gain_w = 32768, pitch_w = 2\<rparr> 2
   = Inr ([0, 524288], \<lparr>src = 4, dst = 2, pos_f_w = 0, gain_w = 32768, pitch_w = 2\<rparr>)"
  by (simp add: sampler_process_inner_def kernel_loop.simps kernel_body_def ex_rnd_def
        float_to_u32_two Let_def)

lemma ex_oneshot_voice_eq:
  "ex_oneshot_voice = \<lparr>sample = Some ex_oneshot, noteNo = 72, volume = 1/2, pitchBend = 0, channel = 0,
        createdAt = 9, pos = 0, pos_f = 0, playing = True, released = False, gain = 1/2,
        pitch = 2, adsrState = Attack\<rparr>"
  by (simp add: ex_oneshot_voice_def SamplePlayer_new_def UpdatePitch_def ex_oneshot_def ex_sample_def)

lemma Process_step_ex_oneshot:
  "Process_step ex_rnd 1 2 0 (ex_oneshot_voice, [0, 0])
     = Inr (Break (ex_oneshot_voice\<lparr>playing := False\<rparr>, [0, 524288]))"
  by (simp add: Process_step_def ex_oneshot_voice_eq ex_oneshot_def ex_sample_def ex_rnd_def
        kernel_ex_oneshot loop_point_def Let_def)

theorem oneshot_gain_is_volume_witness:
  "voice_run ex_rnd ex_oneshot (ex_oneshot_voice\<lparr>playing := False\<rparr>)
   \<and> gain ex_oneshot_voice = 1/2 \<and> volume ex_oneshot_voice = 1/2
   \<and> UpdateGain ex_rnd ex_oneshot_voice = ex_oneshot_voice
   \<and> Process_step ex_rnd 1 2 0 (ex_oneshot_voice, [0, 0])
       = Inr (Break (ex_oneshot_voice\<lparr>playing := False\<rparr>, [0, 524288]))
   \<and> gain (ex_oneshot_voice\<lparr>playing := False\<rparr>) = volume (ex_oneshot_voice\<lparr>playing := False\<rparr>)"
proof -
  have na: "\<not> adsrEnabled ex_oneshot" by (simp add: ex_oneshot_def)
  have r1: "voice_run ex_rnd ex_oneshot ex_oneshot_voice"
    unfolding ex_oneshot_voice_def by (rule voice_run.allocated)
  have pl: "playing ex_oneshot_voice" by (simp add: ex_oneshot_voice_eq)
  from voice_run.stopped [OF r1 pl Process_step_ex_oneshot]
  have r2: "voice_run ex_rnd ex_oneshot (ex_oneshot_voice\<lparr>playing := False\<rparr>)" .
  note t1 = oneshot_gain_is_volume [OF r1 na]
  note t2 = oneshot_gain_is_volume [OF r2 na]
  have g1: "gain ex_oneshot_voice = volume ex_oneshot_voice"
    by (rule t1 [THEN conjunct2, THEN conjunct1])
  have u1: "UpdateGain ex_rnd ex_oneshot_voice = ex_oneshot_voice"
    by (rule t1 [THEN conjunct2, THEN conjunct2, THEN conjunct1])
  have g2: "gain (ex_oneshot_voice\<lparr>playing := False\<rparr>) = volume (ex_oneshot_voice\<lparr>playing := False\<rparr>)"
    by (rule t2 [THEN conjunct2, THEN conjunct1])
  have v: "volume ex_oneshot_voice = 1/2" by (simp add: ex_oneshot_voice_eq)
  show ?thesis
    using g1 u1 g2 r2 v Process_step_ex_oneshot by simp
qed

section \<open>An entry that outlives its voice\<close>

text \<open>
  A voice that reaches the end of its sample in the mixing pass stops playing, and the
  entry of the channel that refers to it stays: \<open>playingNotes\<close> then holds an entry
  whose voice has \<open>playing = false\<close>.
\<close>

lemma replicate_2: "replicate 2 x = [x, x]"
  by (simp add: numeral_2_eq_2)

lemma Process_ex_stopped:
  "Process ex_rnd new velocityTable 2 2
     \<lparr>channels = [ex_channel\<lparr>playingNotes := [\<lparr>noteNo_pn = 72, playerId = 0\<rparr>]\<rparr>],
      players = [ex_fast_oneshot], masterVolume = 1, messageQueue = []\<rparr>
   = Inr (\<lparr>channels = [ex_channel\<lparr>playingNotes := [\<lparr>noteNo_pn = 72, playerId = 0\<rparr>]\<rparr>],
            players = [ex_fast_oneshot\<lparr>playing := False\<rparr>], masterVolume = 1, messageQueue = []\<rparr>,
          [0, 524288])"
proof -
  have pl: "playing ex_fast_oneshot"
    by (simp add: ex_fast_oneshot_def ex_fast_def ex_player_def)
  have "Process_steps ex_rnd 1 2 0 (Suc 0) (ex_fast_oneshot, [0, 0])
          = Inr (ex_fast_oneshot\<lparr>playing := False\<rparr>, [0, 524288])"
    by (simp add: Process_step_ex_fast_oneshot)
  then show ?thesis
    using pl by (simp add: Process_def Process_voice_def replicate_2)
qed

end
